theory Spec2Isabelle
  imports Main "HOL-Library.Word"
begin

section \<open>The LRU replacer (src/replacer/lru\_replacer.cpp)\<close>

text \<open>
  The replacer keeps a \<^verbatim>\<open>std::list<frame_id_t> LRUlist_\<close> and a hash table
  \<^verbatim>\<open>LRUhash_\<close> from a frame id to the list iterator of its node. An iterator of a
  \<^verbatim>\<open>std::list\<close> is the address of a node and stays valid while the node lives, so a
  node is modelled as a pair of its address and the frame id it holds, and the list as
  the sequence of its nodes from \<^verbatim>\<open>begin()\<close> to \<^verbatim>\<open>back()\<close>.
  The type \<^verbatim>\<open>frame_id_t\<close> is declared in a header outside these sources; frame ids are
  only compared and hashed, never used in arithmetic, and are integers here. \<^verbatim>\<open>victim\<close>
  is always given a pointer it can store through.
  The mutex \<^verbatim>\<open>latch_\<close> makes every member function atomic; one call is one
  function application here.
\<close>

type_synonym frame_id_t = int
type_synonym node_addr = nat

record LRUReplacer =
  LRUlist :: "(node_addr \<times> frame_id_t) list"
  LRUhash :: "frame_id_t \<rightharpoonup> node_addr"
  max_size :: nat

text \<open>The constructor only stores the pool size; both containers start empty.\<close>

definition new_LRUReplacer :: "nat \<Rightarrow> LRUReplacer" where
  "new_LRUReplacer num_pages = \<lparr>LRUlist = [], LRUhash = Map.empty, max_size = num_pages\<rparr>"

text \<open>
  \<^verbatim>\<open>emplace_front\<close> allocates a node. The allocator returns an address that no live
  node has; the model takes the successor of the largest live address.
\<close>

definition new_node :: "(node_addr \<times> frame_id_t) list \<Rightarrow> node_addr" where
  "new_node l = Suc (fold max (map fst l) 0)"

definition emplace_front :: "frame_id_t \<Rightarrow> (node_addr \<times> frame_id_t) list \<Rightarrow> (node_addr \<times> frame_id_t) list" where
  "emplace_front f l = (new_node l, f) # l"

text \<open>\<^verbatim>\<open>list::erase(iterator)\<close> unlinks the node at that address.\<close>

definition list_erase :: "node_addr \<Rightarrow> (node_addr \<times> frame_id_t) list \<Rightarrow> (node_addr \<times> frame_id_t) list" where
  "list_erase it l = filter (\<lambda>n. fst n \<noteq> it) l"

text \<open>
  \<^verbatim>\<open>victim(frame_id_t* frame_id)\<close> returns its \<^verbatim>\<open>bool\<close>, what it stores through the
  pointer (\<open>None\<close> when it stores nothing: on the empty list it only overwrites its own
  copy of the pointer) and the new state.
\<close>

definition victim :: "LRUReplacer \<Rightarrow> bool \<times> frame_id_t option \<times> LRUReplacer" where
  "victim r =
     (if LRUlist r = [] then (False, None, r)
      else let victim_id = snd (last (LRUlist r));
               r1 = r\<lparr>LRUlist := butlast (LRUlist r)\<rparr>;
               r2 = r1\<lparr>LRUhash := (LRUhash r1)(victim_id := None)\<rparr>
           in (True, Some victim_id, r2))"

definition pin :: "frame_id_t \<Rightarrow> LRUReplacer \<Rightarrow> LRUReplacer" where
  "pin frame_id r =
     (case LRUhash r frame_id of
        Some frame \<Rightarrow>
          (let r1 = r\<lparr>LRUlist := list_erase frame (LRUlist r)\<rparr>
           in r1\<lparr>LRUhash := (LRUhash r1)(frame_id := None)\<rparr>)
      | None \<Rightarrow> r)"

definition unpin :: "frame_id_t \<Rightarrow> LRUReplacer \<Rightarrow> LRUReplacer" where
  "unpin frame_id r =
     (if LRUhash r frame_id = None then
        (let r1 = r\<lparr>LRUlist := emplace_front frame_id (LRUlist r)\<rparr>
         in r1\<lparr>LRUhash := (LRUhash r1)(frame_id \<mapsto> fst (hd (LRUlist r1)))\<rparr>)
      else r)"

definition Size :: "LRUReplacer \<Rightarrow> nat" where
  "Size r = length (LRUlist r)"

text \<open>The registry as the caller sees it: the frame ids from the head to the tail.\<close>

definition registry :: "LRUReplacer \<Rightarrow> frame_id_t list" where
  "registry r = map snd (LRUlist r)"

subsection \<open>Call sequences\<close>

datatype pin_call = Unpin frame_id_t | Pin frame_id_t

datatype call = PinCall pin_call | Victim

fun do_pin_call :: "pin_call \<Rightarrow> LRUReplacer \<Rightarrow> LRUReplacer" where
  "do_pin_call (Unpin f) r = unpin f r"
| "do_pin_call (Pin f) r = pin f r"

fun do_call :: "call \<Rightarrow> LRUReplacer \<Rightarrow> LRUReplacer" where
  "do_call (PinCall c) r = do_pin_call c r"
| "do_call Victim r = snd (snd (victim r))"

definition run :: "LRUReplacer \<Rightarrow> call list \<Rightarrow> LRUReplacer" where
  "run r cs = fold do_call cs r"

text \<open>Calling \<^verbatim>\<open>victim\<close> until it returns false, collecting what it stored.\<close>

function drain :: "LRUReplacer \<Rightarrow> frame_id_t list" where
  "drain r =
     (case victim r of
        (True, Some v, r') \<Rightarrow> v # drain r'
      | _ \<Rightarrow> [])"
  by pat_completeness auto
termination
  by (relation "measure Size")
     (auto simp: victim_def Let_def Size_def split: if_splits)

declare drain.simps [simp del]

subsection \<open>Reference notions for the replacer\<close>

text \<open>
  The two containers describe one registry when every iterator stored in \<open>LRUhash\<close>
  is the address of the live node that holds its key, and every node is indexed.
\<close>

definition consistent :: "LRUReplacer \<Rightarrow> bool" where
  "consistent r \<longleftrightarrow>
     distinct (map fst (LRUlist r)) \<and>
     (\<forall>f a. LRUhash r f = Some a \<longleftrightarrow> (a, f) \<in> set (LRUlist r))"

text \<open>
  The LRU order, defined from the history of calls alone. Calls are numbered from 0.
  A frame is tracked from the unpin that puts it into the registry until it is pinned;
  \<open>entry_times\<close> gives every tracked frame the number of that unpin. An unpin of a
  frame that is already tracked is ignored and does not refresh the number.
\<close>

fun entry_times :: "pin_call list \<Rightarrow> nat \<Rightarrow> (frame_id_t \<rightharpoonup> nat) \<Rightarrow> (frame_id_t \<rightharpoonup> nat)" where
  "entry_times [] t s = s"
| "entry_times (Unpin f # cs) t s = entry_times cs (Suc t) (if s f = None then s(f \<mapsto> t) else s)"
| "entry_times (Pin f # cs) t s = entry_times cs (Suc t) (s(f := None))"

definition tracked_since :: "pin_call list \<Rightarrow> (frame_id_t \<rightharpoonup> nat)" where
  "tracked_since cs = entry_times cs 0 Map.empty"

text \<open>
  The number of the last \<^verbatim>\<open>unpin(f)\<close> call, whether it was ignored or not, and the
  sequences in which no frame is unpinned while it is tracked (the buffer pool unpins a
  frame when its pin count drops to zero, so it pins it again before the next unpin).
\<close>

fun last_unpin :: "pin_call list \<Rightarrow> nat \<Rightarrow> (frame_id_t \<rightharpoonup> nat) \<Rightarrow> (frame_id_t \<rightharpoonup> nat)" where
  "last_unpin [] t l = l"
| "last_unpin (Unpin f # cs) t l = last_unpin cs (Suc t) (l(f \<mapsto> t))"
| "last_unpin (Pin f # cs) t l = last_unpin cs (Suc t) l"

fun no_repeated_unpin :: "pin_call list \<Rightarrow> frame_id_t set \<Rightarrow> bool" where
  "no_repeated_unpin [] T = True"
| "no_repeated_unpin (Unpin f # cs) T = (f \<notin> T \<and> no_repeated_unpin cs (insert f T))"
| "no_repeated_unpin (Pin f # cs) T = no_repeated_unpin cs (T - {f})"

definition older :: "(frame_id_t \<rightharpoonup> nat) \<Rightarrow> frame_id_t \<Rightarrow> frame_id_t \<Rightarrow> bool" where
  "older s a b \<longleftrightarrow> (case (s a, s b) of (Some i, Some j) \<Rightarrow> i < j | _ \<Rightarrow> False)"

text \<open>
  The registry \<open>xs\<close> (head first) agrees with the entry times \<open>s\<close> at call number
  \<open>t\<close>: it holds exactly the tracked frames, once each, the most recent first.
\<close>

definition stamped :: "nat \<Rightarrow> (frame_id_t \<rightharpoonup> nat) \<Rightarrow> frame_id_t list \<Rightarrow> bool" where
  "stamped t s xs \<longleftrightarrow>
     dom s = set xs \<and> distinct xs \<and> sorted_wrt (\<lambda>a b. older s b a) xs \<and>
     (\<forall>f k. s f = Some k \<longrightarrow> k < t)"

section \<open>The disk manager (src/storage/disk\_manager.cpp)\<close>

subsection \<open>The system calls the disk manager makes\<close>

text \<open>
  The member functions reach the files through \<^verbatim>\<open>open\<close>, \<^verbatim>\<open>close\<close>, \<^verbatim>\<open>lseek\<close>,
  \<^verbatim>\<open>read\<close>, \<^verbatim>\<open>write\<close>, \<^verbatim>\<open>stat\<close> and \<^verbatim>\<open>unlink\<close>. The state of the operating
  system that these calls read and change is a directory of names, a store of inodes, the
  descriptor table of the process with its size limit, and the number of bytes one
  \<^verbatim>\<open>write\<close> call transfers at most (a device that fills up, a quota or a signal make the
  kernel transfer fewer bytes than asked). Every call returns what the C function returns,
  \<open>-1\<close> on failure, and the new state. Names are looked up as plain strings. An inode
  is never reused, so a file that is unlinked while a descriptor is open stays readable
  through the descriptor.
\<close>

type_synonym byte = "8 word"
type_synonym path = string

datatype inode = Reg "byte list" | Dir

datatype access_mode = O_RDONLY | O_WRONLY | O_RDWR

record ofd =
  ofd_ino :: nat
  ofd_pos :: nat
  ofd_acc :: access_mode

record os =
  names :: "path \<rightharpoonup> nat"
  inodes :: "inode list"
  fds :: "int \<rightharpoonup> ofd"
  nofile :: nat
  write_limit :: nat

definition sys_stat :: "os \<Rightarrow> path \<Rightarrow> inode option" where
  "sys_stat s p =
     (case names s p of
        None \<Rightarrow> None
      | Some i \<Rightarrow> if i < length (inodes s) then Some (inodes s ! i) else None)"

fun S_ISREG :: "inode \<Rightarrow> bool" where
  "S_ISREG (Reg c) = True"
| "S_ISREG Dir = False"

fun S_ISDIR :: "inode \<Rightarrow> bool" where
  "S_ISDIR (Reg c) = False"
| "S_ISDIR Dir = True"

fun st_size :: "inode \<Rightarrow> nat" where
  "st_size (Reg c) = length c"
| "st_size Dir = 0"

text \<open>The descriptor \<^verbatim>\<open>open\<close> returns is the lowest one that is not in use.\<close>

definition lowest_free_fd :: "os \<Rightarrow> int option" where
  "lowest_free_fd s = map_option int (find (\<lambda>i. fds s (int i) = None) [0..<nofile s])"

text \<open>\<^verbatim>\<open>open(path, O_CREAT | O_EXCL | O_WRONLY, 0644)\<close>\<close>

definition sys_open_creat_excl :: "os \<Rightarrow> path \<Rightarrow> int \<times> os" where
  "sys_open_creat_excl s p =
     (if sys_stat s p \<noteq> None then (- 1, s)
      else case lowest_free_fd s of
        None \<Rightarrow> (- 1, s)
      | Some fd \<Rightarrow>
          (fd, s\<lparr>names := (names s)(p \<mapsto> length (inodes s)),
                 inodes := inodes s @ [Reg []],
                 fds := (fds s)(fd \<mapsto> \<lparr>ofd_ino = length (inodes s), ofd_pos = 0,
                                        ofd_acc = O_WRONLY\<rparr>)\<rparr>))"

text \<open>\<^verbatim>\<open>open(path, O_RDWR)\<close>\<close>

definition sys_open_rdwr :: "os \<Rightarrow> path \<Rightarrow> int \<times> os" where
  "sys_open_rdwr s p =
     (case names s p of
        None \<Rightarrow> (- 1, s)
      | Some i \<Rightarrow>
          (case sys_stat s p of
             Some (Reg c) \<Rightarrow>
               (case lowest_free_fd s of
                  None \<Rightarrow> (- 1, s)
                | Some fd \<Rightarrow>
                    (fd, s\<lparr>fds := (fds s)(fd \<mapsto> \<lparr>ofd_ino = i, ofd_pos = 0,
                                                  ofd_acc = O_RDWR\<rparr>)\<rparr>))
           | _ \<Rightarrow> (- 1, s)))"

definition sys_close :: "os \<Rightarrow> int \<Rightarrow> int \<times> os" where
  "sys_close s fd =
     (if fds s fd = None then (- 1, s) else (0, s\<lparr>fds := (fds s)(fd := None)\<rparr>))"

definition sys_unlink :: "os \<Rightarrow> path \<Rightarrow> int \<times> os" where
  "sys_unlink s p =
     (case sys_stat s p of
        Some (Reg c) \<Rightarrow> (0, s\<lparr>names := (names s)(p := None)\<rparr>)
      | _ \<Rightarrow> (- 1, s))"

text \<open>An open descriptor of a regular file, with the bytes of the file.\<close>

definition fd_file :: "os \<Rightarrow> int \<Rightarrow> (ofd \<times> byte list) option" where
  "fd_file s fd =
     (case fds s fd of
        None \<Rightarrow> None
      | Some d \<Rightarrow>
          if ofd_ino d < length (inodes s) then
            (case inodes s ! ofd_ino d of Reg c \<Rightarrow> Some (d, c) | Dir \<Rightarrow> None)
          else None)"

text \<open>\<^verbatim>\<open>lseek(fd, off, SEEK_SET)\<close>\<close>

definition sys_lseek_set :: "os \<Rightarrow> int \<Rightarrow> int \<Rightarrow> int \<times> os" where
  "sys_lseek_set s fd off =
     (case fd_file s fd of
        None \<Rightarrow> (- 1, s)
      | Some (d, c) \<Rightarrow>
          if off < 0 then (- 1, s)
          else (off, s\<lparr>fds := (fds s)(fd \<mapsto> d\<lparr>ofd_pos := nat off\<rparr>)\<rparr>))"

text \<open>\<^verbatim>\<open>lseek(fd, 0, SEEK_END)\<close>\<close>

definition sys_lseek_end :: "os \<Rightarrow> int \<Rightarrow> int \<times> os" where
  "sys_lseek_end s fd =
     (case fd_file s fd of
        None \<Rightarrow> (- 1, s)
      | Some (d, c) \<Rightarrow>
          (int (length c), s\<lparr>fds := (fds s)(fd \<mapsto> d\<lparr>ofd_pos := length c\<rparr>)\<rparr>))"

text \<open>
  Writing \<open>data\<close> at position \<open>pos\<close> of a file with bytes \<open>c\<close>: a gap between the end
  of the file and \<open>pos\<close> reads as zero bytes.
\<close>

definition pwrite :: "byte list \<Rightarrow> nat \<Rightarrow> byte list \<Rightarrow> byte list" where
  "pwrite c pos data =
     take pos c @ replicate (pos - length c) 0 @ data @ drop (pos + length data) c"

text \<open>
  \<^verbatim>\<open>write(fd, buf, n)\<close> transfers the first \<open>min n write_limit\<close> bytes of the buffer to
  the position of the descriptor and advances it. It fails on a descriptor that is not
  open for writing and on a negative count. The caller's buffer holds at least \<open>n\<close>
  bytes; C leaves a shorter one undefined.
\<close>

definition sys_write :: "os \<Rightarrow> int \<Rightarrow> byte list \<Rightarrow> int \<Rightarrow> int \<times> os" where
  "sys_write s fd buf n =
     (case fd_file s fd of
        None \<Rightarrow> (- 1, s)
      | Some (d, c) \<Rightarrow>
          if ofd_acc d = O_RDONLY \<or> n < 0 then (- 1, s)
          else let k = min (nat n) (write_limit s) in
            if k = 0 then (0, s)
            else (int k,
                  s\<lparr>inodes := (inodes s)[ofd_ino d := Reg (pwrite c (ofd_pos d) (take k buf))],
                    fds := (fds s)(fd \<mapsto> d\<lparr>ofd_pos := ofd_pos d + k\<rparr>)\<rparr>))"

text \<open>
  \<^verbatim>\<open>read(fd, buf, n)\<close> returns the number of bytes read, the bytes it stored at the
  start of the buffer, and the new state. It stops at the end of the file.
\<close>

definition sys_read :: "os \<Rightarrow> int \<Rightarrow> int \<Rightarrow> int \<times> byte list \<times> os" where
  "sys_read s fd n =
     (case fd_file s fd of
        None \<Rightarrow> (- 1, [], s)
      | Some (d, c) \<Rightarrow>
          if ofd_acc d = O_WRONLY \<or> n < 0 then (- 1, [], s)
          else let data = take (nat n) (drop (ofd_pos d) c) in
            (int (length data), data,
             s\<lparr>fds := (fds s)(fd \<mapsto> d\<lparr>ofd_pos := ofd_pos d + length data\<rparr>)\<rparr>))"

subsection \<open>The state of the disk manager\<close>

text \<open>
  The exceptions the member functions throw, and the failure of an \<^verbatim>\<open>assert\<close>. A member
  function returns its result or its exception together with the state it leaves:
  what it changed before it threw stays changed.
\<close>

datatype error =
    InternalError string
  | FileExistsError path
  | FileNotClosedError path
  | FileNotFoundError path
  | FileNotOpenError int
  | UnixError
  | AssertionFailed

text \<open>
  Modelled from the spec: the type \<^verbatim>\<open>page_id_t\<close> and the constant \<^verbatim>\<open>PAGE_SIZE\<close> are
  declared in headers outside these sources. The spec has a logical page number from 0,
  counted up per file, and gives no width; here \<^verbatim>\<open>page_id_t\<close> is \<^verbatim>\<open>int32_t\<close> and
  \<^verbatim>\<open>PAGE_SIZE\<close> is an \<^verbatim>\<open>int\<close>, both 32-bit two's complement numbers. A counter of type
  \<^verbatim>\<open>std::atomic<page_id_t>\<close> wraps around when it is incremented past its largest value.
  The product \<^verbatim>\<open>page_no * PAGE_SIZE\<close> is formed in 32 bits before it is widened to
  \<^verbatim>\<open>off_t\<close>; where it overflows, the low 32 bits are kept.
\<close>

type_synonym int32_t = "32 word"
type_synonym page_id_t = int32_t

text \<open>
  \<^verbatim>\<open>fd2pageno_\<close> is an array of \<^verbatim>\<open>MAX_FD\<close> atomic counters; \<^verbatim>\<open>allocate_page\<close>
  reads it inside the bounds only, so it is a function of the index here. The values of
  \<^verbatim>\<open>PAGE_SIZE\<close>, \<^verbatim>\<open>MAX_FD\<close> and \<^verbatim>\<open>LOG_FILE_NAME\<close> are parameters of the functions
  that use them.
\<close>

record DiskManager =
  path2fd :: "path \<rightharpoonup> int"
  fd2path :: "int \<rightharpoonup> path"
  fd2pageno :: "int \<Rightarrow> page_id_t"
  log_fd :: int

text \<open>
  The constructor zeroes the counters. The maps start empty. Modelled from the spec: the
  initial value of \<^verbatim>\<open>log_fd_\<close> is given in the header; the spec opens the log on first
  access, and \<open>-1\<close> is the value \<^verbatim>\<open>read_log\<close> and \<^verbatim>\<open>write_log\<close> test for before they
  open it.
\<close>

definition new_DiskManager :: DiskManager where
  "new_DiskManager =
     \<lparr>path2fd = Map.empty, fd2path = Map.empty, fd2pageno = (\<lambda>fd. 0), log_fd = - 1\<rparr>"

subsection \<open>Pages\<close>

text \<open>
  \<^verbatim>\<open>off_t off = page_no * PAGE_SIZE\<close>: the 32-bit product, read as a signed number.
\<close>

definition write_page :: "int32_t \<Rightarrow> int \<Rightarrow> page_id_t \<Rightarrow> byte list \<Rightarrow> int \<Rightarrow> os \<Rightarrow> (error + unit) \<times> os" where
  "write_page PAGE_SIZE fd page_no offset num_bytes s =
     (let off = sint (page_no * PAGE_SIZE);
          (r, s1) = sys_lseek_set s fd off
      in if r = - 1 then (Inl (InternalError ''DiskManager::write_page Error: lseek failed''), s1)
         else let (bytes_written, s2) = sys_write s1 fd offset num_bytes
              in if bytes_written \<noteq> num_bytes
                 then (Inl (InternalError ''DiskManager::write_page Error''), s2)
                 else (Inr (), s2))"

text \<open>\<^verbatim>\<open>read_page\<close> also returns the bytes it stored at the start of the caller's buffer.\<close>

definition read_page :: "int32_t \<Rightarrow> int \<Rightarrow> page_id_t \<Rightarrow> int \<Rightarrow> os \<Rightarrow> (error + unit) \<times> byte list \<times> os" where
  "read_page PAGE_SIZE fd page_no num_bytes s =
     (let off = sint (page_no * PAGE_SIZE);
          (r, s1) = sys_lseek_set s fd off
      in if r = - 1 then (Inl (InternalError ''DiskManager::read_page Error: lseek failed''), [], s1)
         else let (bytes_read, data, s2) = sys_read s1 fd num_bytes
              in if bytes_read \<noteq> num_bytes
                 then (Inl (InternalError ''DiskManager::read_page Error''), data, s2)
                 else (Inr (), data, s2))"

text \<open>\<^verbatim>\<open>fd2pageno_[fd]++\<close> on the 32-bit counter: the addition wraps around.\<close>

definition allocate_page :: "int \<Rightarrow> int \<Rightarrow> DiskManager \<Rightarrow> (error + page_id_t) \<times> DiskManager" where
  "allocate_page MAX_FD fd dm =
     (if 0 \<le> fd \<and> fd < MAX_FD
      then (Inr (fd2pageno dm fd), dm\<lparr>fd2pageno := (fd2pageno dm)(fd := fd2pageno dm fd + 1)\<rparr>)
      else (Inl AssertionFailed, dm))"

definition deallocate_page :: "page_id_t \<Rightarrow> DiskManager \<Rightarrow> DiskManager" where
  "deallocate_page page_id dm = dm"

subsection \<open>Files\<close>

definition is_file :: "os \<Rightarrow> path \<Rightarrow> bool" where
  "is_file s p = (case sys_stat s p of Some n \<Rightarrow> S_ISREG n | None \<Rightarrow> False)"

definition is_dir :: "os \<Rightarrow> path \<Rightarrow> bool" where
  "is_dir s p = (case sys_stat s p of Some n \<Rightarrow> S_ISDIR n | None \<Rightarrow> False)"

definition create_file :: "path \<Rightarrow> os \<Rightarrow> (error + unit) \<times> os" where
  "create_file p s =
     (let (fd, s1) = sys_open_creat_excl s p
      in if fd = - 1 then (Inl (FileExistsError p), s1)
         else (Inr (), snd (sys_close s1 fd)))"

definition destroy_file :: "path \<Rightarrow> DiskManager \<Rightarrow> os \<Rightarrow> (error + unit) \<times> os" where
  "destroy_file p dm s =
     (if path2fd dm p \<noteq> None then (Inl (FileNotClosedError p), s)
      else let (r, s1) = sys_unlink s p
           in if r \<noteq> 0 then (Inl (FileNotFoundError p), s1) else (Inr (), s1))"

definition open_file :: "path \<Rightarrow> DiskManager \<Rightarrow> os \<Rightarrow> (error + int) \<times> DiskManager \<times> os" where
  "open_file p dm s =
     (if \<not> is_file s p then (Inl (FileNotFoundError p), dm, s)
      else case path2fd dm p of
        Some fd \<Rightarrow> (Inr fd, dm, s)
      | None \<Rightarrow>
          (let (fd, s1) = sys_open_rdwr s p;
               dm1 = dm\<lparr>path2fd := (path2fd dm)(p \<mapsto> fd)\<rparr>;
               dm2 = dm1\<lparr>fd2path := (fd2path dm1)(fd \<mapsto> p)\<rparr>
           in (Inr fd, dm2, s1)))"

definition close_file :: "int \<Rightarrow> DiskManager \<Rightarrow> os \<Rightarrow> (error + unit) \<times> DiskManager \<times> os" where
  "close_file fd dm s =
     (case fd2path dm fd of
        None \<Rightarrow> (Inr (), dm, s)
      | Some p \<Rightarrow>
          (let (r, s1) = sys_close s fd
           in if r = 0
              then (let dm1 = dm\<lparr>fd2path := (fd2path dm)(fd := None)\<rparr>;
                        dm2 = dm1\<lparr>path2fd := (path2fd dm1)(p := None)\<rparr>
                    in (Inr (), dm2, s1))
              else (Inl (InternalError ''DiskManager::close_file can't close file''), dm, s1)))"

text \<open>\<^verbatim>\<open>int(stat_buf.st_size)\<close> keeps the low 32 bits of the size, read as a signed number.\<close>

definition to_int :: "nat \<Rightarrow> int" where
  "to_int n = sint (word_of_nat n :: 32 word)"

definition get_file_size :: "os \<Rightarrow> path \<Rightarrow> int" where
  "get_file_size s file_name =
     (case sys_stat s file_name of Some n \<Rightarrow> to_int (st_size n) | None \<Rightarrow> - 1)"

definition get_file_name :: "int \<Rightarrow> DiskManager \<Rightarrow> error + path" where
  "get_file_name fd dm =
     (case fd2path dm fd of None \<Rightarrow> Inl (FileNotOpenError fd) | Some p \<Rightarrow> Inr p)"

definition get_file_fd :: "path \<Rightarrow> DiskManager \<Rightarrow> os \<Rightarrow> (error + int) \<times> DiskManager \<times> os" where
  "get_file_fd file_name dm s =
     (case path2fd dm file_name of
        None \<Rightarrow> open_file file_name dm s
      | Some fd \<Rightarrow> (Inr fd, dm, s))"

text \<open>
  \<^verbatim>\<open>create_dir\<close> and \<^verbatim>\<open>destroy_dir\<close> hand a command line to \<^verbatim>\<open>system\<close>. What the
  shell does to the file system is not decided by this code; it is the parameter \<open>sh\<close>,
  which returns the status of the command and the state it leaves.
\<close>

definition create_dir :: "(os \<Rightarrow> int \<times> os) \<Rightarrow> os \<Rightarrow> (error + unit) \<times> os" where
  "create_dir sh s = (let (r, s1) = sh s in if r < 0 then (Inl UnixError, s1) else (Inr (), s1))"

definition destroy_dir :: "(os \<Rightarrow> int \<times> os) \<Rightarrow> os \<Rightarrow> (error + unit) \<times> os" where
  "destroy_dir sh s = (let (r, s1) = sh s in if r < 0 then (Inl UnixError, s1) else (Inr (), s1))"

subsection \<open>The log\<close>

text \<open>
  Both log functions start with the same two lines, which open the log through
  \<^verbatim>\<open>open_file\<close> when \<^verbatim>\<open>log_fd_\<close> is \<open>-1\<close>. \<open>read_log_opened\<close> and
  \<open>write_log_opened\<close> are the statements after these lines. \<^verbatim>\<open>read_log\<close> returns its
  \<^verbatim>\<open>int\<close> and the bytes it stored in \<^verbatim>\<open>log_data\<close>. The parameter \<^verbatim>\<open>size\<close> is
  \<open>size_arg\<close> here, and \<open>size_min\<close> after the assignment of the minimum.
\<close>

definition read_log_opened :: "path \<Rightarrow> int \<Rightarrow> int \<Rightarrow> DiskManager \<Rightarrow> os \<Rightarrow> (error + int) \<times> byte list \<times> DiskManager \<times> os" where
  "read_log_opened LOG_FILE_NAME size_arg offset dm s =
     (let file_size = get_file_size s LOG_FILE_NAME
      in if offset > file_size then (Inr (- 1), [], dm, s)
         else let size_min = min size_arg (file_size - offset)
              in if size_min = 0 then (Inr 0, [], dm, s)
                 else let (r, s1) = sys_lseek_set s (log_fd dm) offset;
                          (bytes_read, data, s2) = sys_read s1 (log_fd dm) size_min
                      in if bytes_read \<noteq> size_min then (Inl AssertionFailed, data, dm, s2)
                         else (Inr bytes_read, data, dm, s2))"

definition read_log :: "path \<Rightarrow> int \<Rightarrow> int \<Rightarrow> DiskManager \<Rightarrow> os \<Rightarrow> (error + int) \<times> byte list \<times> DiskManager \<times> os" where
  "read_log LOG_FILE_NAME size_arg offset dm s =
     (if log_fd dm = - 1 then
        (case open_file LOG_FILE_NAME dm s of
           (Inl e, dm1, s1) \<Rightarrow> (Inl e, [], dm1, s1)
         | (Inr fd, dm1, s1) \<Rightarrow> read_log_opened LOG_FILE_NAME size_arg offset (dm1\<lparr>log_fd := fd\<rparr>) s1)
      else read_log_opened LOG_FILE_NAME size_arg offset dm s)"

definition write_log_opened :: "byte list \<Rightarrow> int \<Rightarrow> DiskManager \<Rightarrow> os \<Rightarrow> (error + unit) \<times> DiskManager \<times> os" where
  "write_log_opened log_data size_arg dm s =
     (let (r, s1) = sys_lseek_end s (log_fd dm);
          (bytes_write, s2) = sys_write s1 (log_fd dm) log_data size_arg
      in if bytes_write \<noteq> size_arg then (Inl UnixError, dm, s2) else (Inr (), dm, s2))"

definition write_log :: "path \<Rightarrow> byte list \<Rightarrow> int \<Rightarrow> DiskManager \<Rightarrow> os \<Rightarrow> (error + unit) \<times> DiskManager \<times> os" where
  "write_log LOG_FILE_NAME log_data size_arg dm s =
     (if log_fd dm = - 1 then
        (case open_file LOG_FILE_NAME dm s of
           (Inl e, dm1, s1) \<Rightarrow> (Inl e, dm1, s1)
         | (Inr fd, dm1, s1) \<Rightarrow> write_log_opened log_data size_arg (dm1\<lparr>log_fd := fd\<rparr>) s1)
      else write_log_opened log_data size_arg dm s)"

subsection \<open>Sequences of calls to the disk manager\<close>

text \<open>The values of \<^verbatim>\<open>PAGE_SIZE\<close>, \<^verbatim>\<open>MAX_FD\<close> and \<^verbatim>\<open>LOG_FILE_NAME\<close> of a build.\<close>

record config =
  page_size :: int32_t
  max_fd :: int
  log_file_name :: path

datatype dm_call =
    Write_page int page_id_t "byte list" int
  | Read_page int page_id_t int
  | Allocate_page int
  | Deallocate_page page_id_t
  | Is_dir path
  | Create_dir "os \<Rightarrow> int \<times> os"
  | Destroy_dir "os \<Rightarrow> int \<times> os"
  | Is_file path
  | Create_file path
  | Destroy_file path
  | Open_file path
  | Close_file int
  | Get_file_size path
  | Get_file_name int
  | Get_file_fd path
  | Read_log int int
  | Write_log "byte list" int

text \<open>
  The state a call leaves, whether it returned or threw. After a failed \<^verbatim>\<open>assert\<close> the
  process is gone; the state is kept as it was.
\<close>

fun do_dm_call :: "config \<Rightarrow> dm_call \<Rightarrow> DiskManager \<times> os \<Rightarrow> DiskManager \<times> os" where
  "do_dm_call cfg (Write_page fd page_no buf n) (dm, s) =
     (dm, snd (write_page (page_size cfg) fd page_no buf n s))"
| "do_dm_call cfg (Read_page fd page_no n) (dm, s) =
     (dm, snd (snd (read_page (page_size cfg) fd page_no n s)))"
| "do_dm_call cfg (Allocate_page fd) (dm, s) = (snd (allocate_page (max_fd cfg) fd dm), s)"
| "do_dm_call cfg (Deallocate_page page_id) (dm, s) = (deallocate_page page_id dm, s)"
| "do_dm_call cfg (Is_dir p) (dm, s) = (dm, s)"
| "do_dm_call cfg (Create_dir sh) (dm, s) = (dm, snd (create_dir sh s))"
| "do_dm_call cfg (Destroy_dir sh) (dm, s) = (dm, snd (destroy_dir sh s))"
| "do_dm_call cfg (Is_file p) (dm, s) = (dm, s)"
| "do_dm_call cfg (Create_file p) (dm, s) = (dm, snd (create_file p s))"
| "do_dm_call cfg (Destroy_file p) (dm, s) = (dm, snd (destroy_file p dm s))"
| "do_dm_call cfg (Open_file p) (dm, s) = snd (open_file p dm s)"
| "do_dm_call cfg (Close_file fd) (dm, s) = snd (close_file fd dm s)"
| "do_dm_call cfg (Get_file_size p) (dm, s) = (dm, s)"
| "do_dm_call cfg (Get_file_name fd) (dm, s) = (dm, s)"
| "do_dm_call cfg (Get_file_fd p) (dm, s) = snd (get_file_fd p dm s)"
| "do_dm_call cfg (Read_log size_arg offset) (dm, s) =
     snd (snd (read_log (log_file_name cfg) size_arg offset dm s))"
| "do_dm_call cfg (Write_log buf size_arg) (dm, s) =
     snd (write_log (log_file_name cfg) buf size_arg dm s)"

definition dm_run :: "config \<Rightarrow> dm_call list \<Rightarrow> DiskManager \<times> os \<Rightarrow> DiskManager \<times> os" where
  "dm_run cfg cs st = fold (do_dm_call cfg) cs st"

text \<open>The number of \<^verbatim>\<open>allocate_page(h)\<close> calls in a sequence.\<close>

fun allocations :: "int \<Rightarrow> dm_call list \<Rightarrow> nat" where
  "allocations h [] = 0"
| "allocations h (Allocate_page fd # cs) = (if fd = h then Suc (allocations h cs) else allocations h cs)"
| "allocations h (c # cs) = allocations h cs"

text \<open>Successive \<^verbatim>\<open>allocate_page\<close> calls on the handles \<open>hs\<close>, with what each returned.\<close>

fun allocate_pages :: "int \<Rightarrow> int list \<Rightarrow> DiskManager \<Rightarrow> (error + page_id_t) list \<times> DiskManager" where
  "allocate_pages MAX_FD [] dm = ([], dm)"
| "allocate_pages MAX_FD (h # hs) dm =
     (let (r, dm1) = allocate_page MAX_FD h dm;
          (rs, dm2) = allocate_pages MAX_FD hs dm1
      in (r # rs, dm2))"

subsection \<open>Reference notions for the disk manager\<close>

text \<open>The open-file table is a bijection between the tracked paths and their handles.\<close>

definition bijection :: "DiskManager \<Rightarrow> bool" where
  "bijection dm \<longleftrightarrow> (\<forall>p fd. path2fd dm p = Some fd \<longleftrightarrow> fd2path dm fd = Some p)"

text \<open>Every tracked handle is an open descriptor of the process.\<close>

definition handles_open :: "DiskManager \<Rightarrow> os \<Rightarrow> bool" where
  "handles_open dm s \<longleftrightarrow> (\<forall>fd p. fd2path dm fd = Some p \<longrightarrow> fds s fd \<noteq> None)"

text \<open>
  What \<^verbatim>\<open>read_log\<close> and \<^verbatim>\<open>write_log\<close> need from their surroundings to reach the log:
  a descriptor on the file named \<open>L\<close>, open the way \<^verbatim>\<open>open_file\<close> opens it, either in
  \<open>log_fd\<close> already or, on the first access, through \<^verbatim>\<open>open_file\<close> (the handle tracked
  for \<open>L\<close>, or a free descriptor).
\<close>

definition log_fd_ok :: "path \<Rightarrow> os \<Rightarrow> int \<Rightarrow> bool" where
  "log_fd_ok L s fd =
     (case fd_file s fd of
        Some (d, c) \<Rightarrow> names s L = Some (ofd_ino d) \<and> ofd_acc d = O_RDWR
      | None \<Rightarrow> False)"

definition log_ready :: "path \<Rightarrow> DiskManager \<Rightarrow> os \<Rightarrow> bool" where
  "log_ready L dm s =
     (if log_fd dm = - 1
      then (case path2fd dm L of
              None \<Rightarrow> lowest_free_fd s \<noteq> None
            | Some fd \<Rightarrow> log_fd_ok L s fd)
      else log_fd_ok L s (log_fd dm))"

subsection \<open>Example states\<close>

text \<open>
  A process right after its start: the descriptors 0, 1 and 2 are open on the terminal
  (inode 0), the directory has no name yet, \<open>n\<close> descriptors are the limit and a
  \<^verbatim>\<open>write\<close> transfers up to \<open>w\<close> bytes.
\<close>

definition tty :: ofd where
  "tty = \<lparr>ofd_ino = 0, ofd_pos = 0, ofd_acc = O_RDWR\<rparr>"

definition fresh_os :: "nat \<Rightarrow> nat \<Rightarrow> os" where
  "fresh_os n w =
     \<lparr>names = Map.empty, inodes = [Reg []],
      fds = [0 \<mapsto> tty, 1 \<mapsto> tty, 2 \<mapsto> tty], nofile = n, write_limit = w\<rparr>"

text \<open>The same process with a data file \<open>''t.db''\<close> open as descriptor 3.\<close>

definition db_os :: "byte list \<Rightarrow> nat \<Rightarrow> os" where
  "db_os c w =
     \<lparr>names = [''t.db'' \<mapsto> 1], inodes = [Reg [], Reg c],
      fds = [0 \<mapsto> tty, 1 \<mapsto> tty, 2 \<mapsto> tty,
             3 \<mapsto> \<lparr>ofd_ino = 1, ofd_pos = 0, ofd_acc = O_RDWR\<rparr>],
      nofile = 8, write_limit = w\<rparr>"

text \<open>The same process in a directory that holds a log \<open>''db.log''\<close> of five bytes.\<close>

definition log_os :: os where
  "log_os =
     \<lparr>names = [''db.log'' \<mapsto> 1], inodes = [Reg [], Reg [1, 2, 3, 4, 5]],
      fds = [0 \<mapsto> tty, 1 \<mapsto> tty, 2 \<mapsto> tty], nofile = 8, write_limit = 4096\<rparr>"


text \<open>A page of 4096 bytes, all \<open>0xAB\<close>.\<close>

definition page_ab :: "byte list" where
  "page_ab = replicate 4096 171"

definition example_config :: config where
  "example_config = \<lparr>page_size = 4096, max_fd = 8192, log_file_name = ''db.log''\<rparr>"

text \<open>The disk manager after \<^verbatim>\<open>open_file("t.db")\<close> returned 3.\<close>

definition db_dm :: DiskManager where
  "db_dm = new_DiskManager\<lparr>path2fd := [''t.db'' \<mapsto> 3], fd2path := [3 \<mapsto> ''t.db'']\<rparr>"

text \<open>
  Every handle in \<open>fd2path\<close> belongs to a path that maps back to it, and every tracked
  path names a regular file.
\<close>

definition tracked_exist :: "DiskManager \<Rightarrow> os \<Rightarrow> bool" where
  "tracked_exist dm s \<longleftrightarrow>
     (\<forall>h p. fd2path dm h = Some p \<longrightarrow> path2fd dm p = Some h) \<and>
     (\<forall>p h. path2fd dm p = Some h \<longrightarrow> is_file s p)"

text \<open>The calls that do not go through the shell.\<close>

fun no_shell :: "dm_call \<Rightarrow> bool" where
  "no_shell (Create_dir sh) = False"
| "no_shell (Destroy_dir sh) = False"
| "no_shell c = True"

section \<open>Properties of the replacer\<close>

subsection \<open>The registry invariant\<close>

lemma fold_max_ge: "(m::nat) \<le> fold max xs m"
  by (induction xs arbitrary: m) (auto intro: order_trans [OF max.cobounded2])

lemma fold_max_mem: "x \<in> set xs \<Longrightarrow> (x::nat) \<le> fold max xs m"
proof (induction xs arbitrary: m)
  case Nil
  then show ?case by simp
next
  case (Cons y ys)
  show ?case
  proof (cases "x = y")
    case True
    have "x \<le> max y m" using True by simp
    also have "\<dots> \<le> fold max ys (max y m)" by (rule fold_max_ge)
    finally show ?thesis by simp
  next
    case False
    with Cons show ?thesis by simp
  qed
qed

lemma new_node_fresh: "(new_node l, f) \<notin> set l"
proof
  assume "(new_node l, f) \<in> set l"
  then have "new_node l \<in> set (map fst l)" by force
  then have "new_node l \<le> fold max (map fst l) 0" by (rule fold_max_mem)
  then show False by (simp add: new_node_def)
qed

lemma new_node_fresh_fst: "new_node l \<notin> fst ` set l"
  using new_node_fresh by force

lemma consistent_new: "consistent (new_LRUReplacer n)"
  by (simp add: consistent_def new_LRUReplacer_def)

lemma consistent_nodes: "consistent r \<Longrightarrow> distinct (map fst (LRUlist r))"
  by (simp add: consistent_def)

lemma hash_node: "consistent r \<Longrightarrow> LRUhash r f = Some a \<Longrightarrow> (a, f) \<in> set (LRUlist r)"
  by (simp add: consistent_def)

lemma node_hash: "consistent r \<Longrightarrow> (a, f) \<in> set (LRUlist r) \<Longrightarrow> LRUhash r f = Some a"
  by (simp add: consistent_def)

lemma consistentI:
  "distinct (map fst (LRUlist r)) \<Longrightarrow>
   (\<And>f a. LRUhash r f = Some a \<Longrightarrow> (a, f) \<in> set (LRUlist r)) \<Longrightarrow>
   (\<And>f a. (a, f) \<in> set (LRUlist r) \<Longrightarrow> LRUhash r f = Some a) \<Longrightarrow> consistent r"
  unfolding consistent_def by blast

lemma consistent_distinct: "consistent r \<Longrightarrow> distinct (registry r)"
proof -
  assume c: "consistent r"
  have "inj_on snd (set (LRUlist r))"
  proof (rule inj_onI)
    fix x y assume xy: "x \<in> set (LRUlist r)" "y \<in> set (LRUlist r)" "snd x = snd y"
    have "LRUhash r (snd x) = Some (fst x)"
      using xy(1) by (intro node_hash [OF c]) simp
    moreover have "LRUhash r (snd x) = Some (fst y)"
      using xy(2,3) by (intro node_hash [OF c]) simp
    ultimately show "x = y" using xy(3) by (simp add: prod_eq_iff)
  qed
  moreover have "distinct (LRUlist r)"
    using consistent_nodes [OF c] by (simp add: distinct_map)
  ultimately show ?thesis by (simp add: registry_def distinct_map)
qed

lemma tracked_iff: "consistent r \<Longrightarrow> f \<in> set (registry r) \<longleftrightarrow> LRUhash r f \<noteq> None"
proof
  assume c: "consistent r" and "f \<in> set (registry r)"
  then obtain a where "(a, f) \<in> set (LRUlist r)" by (auto simp: registry_def)
  then show "LRUhash r f \<noteq> None" using node_hash [OF c] by simp
next
  assume c: "consistent r" and "LRUhash r f \<noteq> None"
  then obtain a where "LRUhash r f = Some a" by blast
  then have "(a, f) \<in> set (LRUlist r)" by (rule hash_node [OF c])
  then show "f \<in> set (registry r)" by (force simp: registry_def)
qed

lemma unpin_tracked: "consistent r \<Longrightarrow> f \<in> set (registry r) \<Longrightarrow> unpin f r = r"
  using tracked_iff [of r f] by (auto simp: unpin_def)

lemma registry_unpin_new:
  "consistent r \<Longrightarrow> f \<notin> set (registry r) \<Longrightarrow> registry (unpin f r) = f # registry r"
  using tracked_iff [of r f]
  by (auto simp: unpin_def registry_def emplace_front_def Let_def)

lemma consistent_unpin: "consistent r \<Longrightarrow> consistent (unpin f r)"
proof (cases "LRUhash r f")
  case (Some a)
  assume "consistent r"
  with Some show ?thesis by (simp add: unpin_def)
next
  case None
  assume c: "consistent r"
  let ?n = "new_node (LRUlist r)"
  have u: "unpin f r = r\<lparr>LRUlist := (?n, f) # LRUlist r, LRUhash := (LRUhash r)(f \<mapsto> ?n)\<rparr>"
    using None by (simp add: unpin_def emplace_front_def Let_def)
  have nof: "\<And>a. (a, f) \<notin> set (LRUlist r)"
    using node_hash [OF c] None by fastforce
  show ?thesis
  proof (rule consistentI)
    show "distinct (map fst (LRUlist (unpin f r)))"
      using consistent_nodes [OF c] new_node_fresh_fst [of "LRUlist r"] by (simp add: u)
  next
    fix g a assume "LRUhash (unpin f r) g = Some a"
    then show "(a, g) \<in> set (LRUlist (unpin f r))"
      using hash_node [OF c] by (auto simp: u split: if_splits)
  next
    fix g a assume "(a, g) \<in> set (LRUlist (unpin f r))"
    then show "LRUhash (unpin f r) g = Some a"
      using node_hash [OF c] nof by (auto simp: u)
  qed
qed

lemma erase_by_addr:
  assumes c: "consistent r" and h: "LRUhash r f = Some a"
  shows "list_erase a (LRUlist r) = filter (\<lambda>n. snd n \<noteq> f) (LRUlist r)"
  unfolding list_erase_def
proof (rule filter_cong [OF refl])
  fix n assume n: "n \<in> set (LRUlist r)"
  obtain a' f' where nn: "n = (a', f')" by (cases n)
  have af: "(a, f) \<in> set (LRUlist r)" using hash_node [OF c h] .
  have d: "distinct (map fst (LRUlist r))" using consistent_nodes [OF c] .
  have "a' = a \<longleftrightarrow> f' = f"
  proof
    assume "a' = a"
    with n af d show "f' = f" unfolding nn by (simp add: eq_key_imp_eq_value)
  next
    assume "f' = f"
    then have "LRUhash r f = Some a'" using n node_hash [OF c] unfolding nn by simp
    with h show "a' = a" by simp
  qed
  then show "(fst n \<noteq> a) = (snd n \<noteq> f)" by (simp add: nn)
qed

lemma pin_tracked:
  assumes c: "consistent r" and h: "LRUhash r f = Some a"
  shows "pin f r = r\<lparr>LRUlist := filter (\<lambda>n. snd n \<noteq> f) (LRUlist r), LRUhash := (LRUhash r)(f := None)\<rparr>"
  using h erase_by_addr [OF c h] by (simp add: pin_def Let_def)

lemma registry_pin: "consistent r \<Longrightarrow> registry (pin f r) = removeAll f (registry r)"
proof (cases "LRUhash r f")
  case None
  assume "consistent r"
  with None have "f \<notin> set (registry r)" by (simp add: tracked_iff)
  with None show ?thesis by (simp add: pin_def)
next
  case (Some a)
  assume c: "consistent r"
  have "map snd (filter (\<lambda>n. snd n \<noteq> f) l) = removeAll f (map snd l)" for l :: "(node_addr \<times> frame_id_t) list"
    by (induction l) auto
  then show ?thesis
    by (simp add: pin_tracked [OF c Some] registry_def)
qed

lemma pin_untracked: "consistent r \<Longrightarrow> f \<notin> set (registry r) \<Longrightarrow> pin f r = r"
  using tracked_iff [of r f] by (auto simp: pin_def)

lemma consistent_pin: "consistent r \<Longrightarrow> consistent (pin f r)"
proof (cases "LRUhash r f")
  case None
  assume "consistent r"
  with None show ?thesis by (simp add: pin_def)
next
  case (Some a)
  assume c: "consistent r"
  note p = pin_tracked [OF c Some]
  show ?thesis
  proof (rule consistentI)
    show "distinct (map fst (LRUlist (pin f r)))"
      using consistent_nodes [OF c] by (simp add: p distinct_map_filter)
  next
    fix g b assume "LRUhash (pin f r) g = Some b"
    then show "(b, g) \<in> set (LRUlist (pin f r))"
      using hash_node [OF c] by (auto simp: p split: if_splits)
  next
    fix g b assume "(b, g) \<in> set (LRUlist (pin f r))"
    then show "LRUhash (pin f r) g = Some b"
      using node_hash [OF c] by (auto simp: p)
  qed
qed

lemma victim_empty: "LRUlist r = [] \<Longrightarrow> victim r = (False, None, r)"
  by (simp add: victim_def)

lemma victim_nonempty:
  "LRUlist r \<noteq> [] \<Longrightarrow>
   \<exists>r'. victim r = (True, Some (last (registry r)), r') \<and> registry r' = butlast (registry r)"
  by (simp add: victim_def Let_def registry_def last_map map_butlast)

lemma consistent_victim: "consistent r \<Longrightarrow> consistent (snd (snd (victim r)))"
proof (cases "LRUlist r = []")
  case True
  assume "consistent r"
  with True show ?thesis by (simp add: victim_def)
next
  case False
  assume c: "consistent r"
  obtain xs x where l: "LRUlist r = xs @ [x]"
    using False by (metis append_butlast_last_id)
  obtain a v where x: "x = (a, v)" by (cases x)
  let ?r' = "snd (snd (victim r))"
  have v: "?r' = r\<lparr>LRUlist := xs, LRUhash := (LRUhash r)(v := None)\<rparr>"
    by (simp add: victim_def Let_def l x)
  have dr: "distinct (registry r)" using c by (rule consistent_distinct)
  then have vn: "\<And>b. (b, v) \<notin> set xs" by (force simp: registry_def l x)
  show ?thesis
  proof (rule consistentI)
    show "distinct (map fst (LRUlist ?r'))"
      using consistent_nodes [OF c] by (simp add: v l)
  next
    fix g b assume "LRUhash ?r' g = Some b"
    then have "g \<noteq> v" "(b, g) \<in> set (LRUlist r)"
      using hash_node [OF c] by (auto simp: v split: if_splits)
    then show "(b, g) \<in> set (LRUlist ?r')"
      by (auto simp: v l x)
  next
    fix g b assume m: "(b, g) \<in> set (LRUlist ?r')"
    then have "g \<noteq> v" using vn by (auto simp: v)
    moreover have "LRUhash r g = Some b"
      using m by (intro node_hash [OF c]) (simp add: v l)
    ultimately show "LRUhash ?r' g = Some b" by (simp add: v)
  qed
qed

lemma consistent_run: "consistent r \<Longrightarrow> consistent (run r cs)"
  unfolding run_def
proof (induction cs arbitrary: r)
  case Nil
  then show ?case by simp
next
  case (Cons c cs)
  have "consistent (do_call c r)"
  proof (cases c)
    case (PinCall p)
    then show ?thesis using Cons.prems by (cases p) (simp_all add: consistent_unpin consistent_pin)
  next
    case Victim
    then show ?thesis using Cons.prems by (simp add: consistent_victim)
  qed
  then show ?case using Cons.IH by simp
qed

lemma reachable_consistent: "consistent (run (new_LRUReplacer n) cs)"
  by (rule consistent_run [OF consistent_new])

lemma drain_rev: "drain r = rev (registry r)"
proof (induction r rule: drain.induct)
  case (1 r)
  show ?case
  proof (cases "LRUlist r = []")
    case True
    then show ?thesis by (simp add: drain.simps [of r] victim_empty registry_def)
  next
    case False
    then obtain r' where v: "victim r = (True, Some (last (registry r)), r')"
      and b: "registry r' = butlast (registry r)"
      using victim_nonempty by blast
    have ne: "registry r \<noteq> []" using False by (simp add: registry_def)
    have "drain r' = rev (registry r')"
      using "1.IH" v by simp
    then have "drain r = last (registry r) # rev (butlast (registry r))"
      using v b by (simp add: drain.simps [of r])
    also have "\<dots> = rev (butlast (registry r) @ [last (registry r)])" by simp
    also have "\<dots> = rev (registry r)" using ne by simp
    finally show ?thesis .
  qed
qed


subsection \<open>The registry follows the entry times\<close>

lemma run_Nil: "run r [] = r"
  by (simp add: run_def)

lemma run_Cons: "run r (c # cs) = run (do_call c r) cs"
  by (simp add: run_def)

lemma run_append: "run r (cs @ ds) = run (run r cs) ds"
  by (simp add: run_def)

lemma stamped_unpin_new:
  assumes "stamped t s xs" "f \<notin> set xs"
  shows "stamped (Suc t) (s(f \<mapsto> t)) (f # xs)"
proof -
  from assms have d: "dom s = set xs" and di: "distinct xs"
    and so: "sorted_wrt (\<lambda>a b. older s b a) xs" and b: "\<And>g k. s g = Some k \<Longrightarrow> k < t"
    by (auto simp: stamped_def)
  have "sorted_wrt (\<lambda>a b. older (s(f \<mapsto> t)) b a) xs"
    using so assms(2) by (auto elim!: sorted_wrt_mono_rel [rotated] simp: older_def)
  moreover have "\<forall>x\<in>set xs. older (s(f \<mapsto> t)) x f"
  proof
    fix x assume x: "x \<in> set xs"
    then obtain k where k: "s x = Some k" using d by blast
    then have "k < t" by (rule b)
    then show "older (s(f \<mapsto> t)) x f" using x assms(2) k by (auto simp: older_def)
  qed
  moreover have "\<forall>g k. (s(f \<mapsto> t)) g = Some k \<longrightarrow> k < Suc t"
    using b by (auto simp: less_Suc_eq)
  ultimately show ?thesis
    using d di assms(2) by (simp add: stamped_def)
qed

lemma stamped_later: "stamped t s xs \<Longrightarrow> stamped (Suc t) s xs"
  by (auto simp: stamped_def less_Suc_eq)

lemma stamped_pin:
  assumes "stamped t s xs"
  shows "stamped (Suc t) (s(f := None)) (removeAll f xs)"
proof -
  from assms have d: "dom s = set xs" and di: "distinct xs"
    and so: "sorted_wrt (\<lambda>a b. older s b a) xs" and b: "\<And>g k. s g = Some k \<Longrightarrow> k < t"
    by (auto simp: stamped_def)
  have "sorted_wrt (\<lambda>a b. older s b a) (removeAll f xs)"
    using so by (simp add: removeAll_filter_not_eq sorted_wrt_filter)
  then have "sorted_wrt (\<lambda>a b. older (s(f := None)) b a) (removeAll f xs)"
    by (auto elim!: sorted_wrt_mono_rel [rotated] simp: older_def)
  moreover have "\<forall>g k. (s(f := None)) g = Some k \<longrightarrow> k < Suc t"
    using b by (auto simp: less_Suc_eq)
  ultimately show ?thesis
    using d di by (auto simp: stamped_def distinct_removeAll)
qed

lemma stamped_run:
  "consistent r \<Longrightarrow> stamped t s (registry r) \<Longrightarrow>
   stamped (t + length cs) (entry_times cs t s) (registry (run r (map PinCall cs)))"
proof (induction cs arbitrary: r t s)
  case Nil
  then show ?case by (simp add: run_Nil)
next
  case (Cons c cs)
  show ?case
  proof (cases c)
    case (Unpin f)
    show ?thesis
    proof (cases "f \<in> set (registry r)")
      case True
      then have "s f \<noteq> None" using Cons.prems(2) by (auto simp: stamped_def)
      moreover have "unpin f r = r" using Cons.prems(1) True by (rule unpin_tracked)
      ultimately show ?thesis
        using Cons.IH [OF Cons.prems(1) stamped_later [OF Cons.prems(2)]]
        by (auto simp: Unpin run_Cons)
    next
      case False
      then have n: "s f = None" using Cons.prems(2) by (auto simp: stamped_def)
      have "stamped (Suc t) (s(f \<mapsto> t)) (registry (unpin f r))"
        using stamped_unpin_new [OF Cons.prems(2) False]
        by (simp add: registry_unpin_new [OF Cons.prems(1) False])
      then have "stamped (Suc t + length cs) (entry_times cs (Suc t) (s(f \<mapsto> t)))
                  (registry (run (unpin f r) (map PinCall cs)))"
        by (rule Cons.IH [OF consistent_unpin [OF Cons.prems(1)]])
      moreover have "entry_times (c # cs) t s = entry_times cs (Suc t) (s(f \<mapsto> t))"
        using n by (simp add: Unpin)
      moreover have "run r (map PinCall (c # cs)) = run (unpin f r) (map PinCall cs)"
        by (simp add: Unpin run_Cons)
      ultimately show ?thesis by simp
    qed
  next
    case (Pin f)
    have "stamped (Suc t) (s(f := None)) (registry (pin f r))"
      using stamped_pin [OF Cons.prems(2)] by (simp add: registry_pin [OF Cons.prems(1)])
    then have "stamped (Suc t + length cs) (entry_times cs (Suc t) (s(f := None)))
                (registry (run (pin f r) (map PinCall cs)))"
      by (rule Cons.IH [OF consistent_pin [OF Cons.prems(1)]])
    moreover have "entry_times (c # cs) t s = entry_times cs (Suc t) (s(f := None))"
      by (simp add: Pin)
    moreover have "run r (map PinCall (c # cs)) = run (pin f r) (map PinCall cs)"
      by (simp add: Pin run_Cons)
    ultimately show ?thesis by simp
  qed
qed

lemma stamped_reachable:
  "stamped (length cs) (tracked_since cs) (registry (run (new_LRUReplacer n) (map PinCall cs)))"
proof -
  have "stamped 0 Map.empty (registry (new_LRUReplacer n))"
    by (simp add: stamped_def registry_def new_LRUReplacer_def)
  from stamped_run [OF consistent_new this, of cs]
  show ?thesis by (simp add: tracked_since_def)
qed

text \<open>
  When no frame is unpinned while it is tracked, the entry time of a tracked frame is the
  number of its last unpin call.
\<close>

lemma entry_times_last_unpin:
  "no_repeated_unpin cs (dom s) \<Longrightarrow> (\<And>f k. s f = Some k \<Longrightarrow> l f = Some k) \<Longrightarrow>
   entry_times cs t s f = Some k \<Longrightarrow> last_unpin cs t l f = Some k"
proof (induction cs t s arbitrary: l rule: entry_times.induct)
  case (1 t s)
  then show ?case by simp
next
  case (2 g cs t s)
  from "2.prems"(1) have n: "s g = None" and r: "no_repeated_unpin cs (dom (s(g \<mapsto> t)))"
    by auto
  have "last_unpin cs (Suc t) (l(g \<mapsto> t)) f = Some k"
  proof (rule "2.IH")
    show "no_repeated_unpin cs (dom (if s g = None then s(g \<mapsto> t) else s))"
      using n r by simp
    show "(l(g \<mapsto> t)) f' = Some k'" if "(if s g = None then s(g \<mapsto> t) else s) f' = Some k'" for f' k'
      using that n "2.prems"(2) [of f' k'] by (auto split: if_splits)
    show "entry_times cs (Suc t) (if s g = None then s(g \<mapsto> t) else s) f = Some k"
      using "2.prems"(3) by simp
  qed
  then show ?case by simp
next
  case (3 g cs t s)
  have "last_unpin cs (Suc t) l f = Some k"
  proof (rule "3.IH")
    show "no_repeated_unpin cs (dom (s(g := None)))"
      using "3.prems"(1) by simp
    show "l f' = Some k'" if "(s(g := None)) f' = Some k'" for f' k'
      using that "3.prems"(2) [of f' k'] by (auto split: if_splits)
    show "entry_times cs (Suc t) (s(g := None)) f = Some k"
      using "3.prems"(3) by simp
  qed
  then show ?case by simp
qed

lemma tracked_since_last_unpin:
  "no_repeated_unpin cs {} \<Longrightarrow> tracked_since cs f = Some k \<Longrightarrow> last_unpin cs 0 Map.empty f = Some k"
  using entry_times_last_unpin [of cs Map.empty Map.empty 0 f k]
  by (simp add: tracked_since_def)

text \<open>
  A repeated unpin of a tracked frame is the one case where the entry time and the last
  unpin call differ; the registry follows the entry time.
\<close>

lemma repeated_unpin_keeps_entry_time:
  "tracked_since [Unpin 1, Unpin 2, Unpin 1] 1 = Some 0 \<and>
   last_unpin [Unpin 1, Unpin 2, Unpin 1] 0 Map.empty 1 = Some 2 \<and>
   drain (run (new_LRUReplacer 2) (map PinCall [Unpin 1, Unpin 2, Unpin 1])) = [1, 2]"
  by (simp add: tracked_since_def drain_rev registry_def run_def new_LRUReplacer_def unpin_def
      emplace_front_def new_node_def Let_def)

subsection \<open>Claims about the replacer\<close>

lemma victim_step:
  assumes "LRUlist r \<noteq> []"
  shows "\<exists>r'. victim r = (True, Some (hd (drain r)), r') \<and> drain r' = tl (drain r) \<and>
              Size r' = Size r - 1"
proof -
  have ner: "registry r \<noteq> []" using assms by (simp add: registry_def)
  from victim_nonempty [OF assms] obtain r' where
    v: "victim r = (True, Some (last (registry r)), r')" and b: "registry r' = butlast (registry r)"
    by blast
  have "hd (drain r) = last (registry r)" using ner by (simp add: drain_rev hd_rev)
  moreover have "drain r' = tl (drain r)"
    using b by (simp add: drain_rev) (metis butlast_rev rev_rev_ident)
  moreover have "length (registry r') = length (registry r) - 1"
    using b by simp
  then have "Size r' = Size r - 1"
    by (simp add: Size_def registry_def)
  ultimately show ?thesis using v by simp
qed

text \<open>
  Claim C1. After any sequence \<open>cs\<close> of unpin and pin calls on a fresh replacer, calling
  \<^verbatim>\<open>victim\<close> until it returns false (\<open>drain\<close>) stores exactly the tracked frame
  ids, each once, in strictly increasing order of the call that put them into the
  registry (\<open>tracked_since\<close>). A single \<^verbatim>\<open>victim\<close> call on a non-empty registry
  returns true, stores the first of these (the least recently unpinned frame, the tail of
  the list) and leaves the rest to be drained; on an empty registry it returns false,
  stores nothing and changes nothing. The frames come out from the tail of the registry
  to its head. "Least recently unpinned" counts the unpin that made the frame tracked: an
  unpin of a tracked frame is ignored and does not move it.
\<close>

theorem victim_lru_order:
  fixes n :: nat and cs :: "pin_call list"
  defines "r \<equiv> run (new_LRUReplacer n) (map PinCall cs)"
  shows "drain r = rev (registry r) \<and>
         set (drain r) = dom (tracked_since cs) \<and>
         distinct (drain r) \<and>
         sorted_wrt (older (tracked_since cs)) (drain r) \<and>
         (drain r = [] \<longrightarrow> victim r = (False, None, r)) \<and>
         (drain r \<noteq> [] \<longrightarrow>
           (\<exists>r'. victim r = (True, Some (hd (drain r)), r') \<and> drain r' = tl (drain r) \<and>
                 Size r' = Size r - 1))"
proof -
  have st: "stamped (length cs) (tracked_since cs) (registry r)"
    unfolding r_def by (rule stamped_reachable)
  have "drain r = rev (registry r)"
    by (rule drain_rev)
  moreover have "set (drain r) = dom (tracked_since cs)"
    using st by (simp add: drain_rev stamped_def)
  moreover have "distinct (drain r)"
    using st by (simp add: drain_rev stamped_def)
  moreover have "sorted_wrt (older (tracked_since cs)) (drain r)"
    using st by (simp add: drain_rev stamped_def sorted_wrt_rev)
  moreover have "drain r = [] \<longrightarrow> victim r = (False, None, r)"
    by (simp add: drain_rev registry_def victim_empty)
  moreover have "drain r \<noteq> [] \<longrightarrow>
           (\<exists>r'. victim r = (True, Some (hd (drain r)), r') \<and> drain r' = tl (drain r) \<and>
                 Size r' = Size r - 1)"
    using victim_step [of r] by (simp add: drain_rev registry_def)
  ultimately show ?thesis by blast
qed


theorem victim_lru_order_witness:
  "drain (run (new_LRUReplacer 3)
      (map PinCall [Unpin 1, Unpin 2, Unpin 1, Unpin 3, Pin 2, Unpin 2])) = [1, 3, 2] \<and>
   (\<exists>r'. victim (run (new_LRUReplacer 3)
      (map PinCall [Unpin 1, Unpin 2, Unpin 1, Unpin 3, Pin 2, Unpin 2])) = (True, Some 1, r') \<and>
      drain r' = [3, 2]) \<and>
   map (tracked_since [Unpin 1, Unpin 2, Unpin 1, Unpin 3, Pin 2, Unpin 2]) [1, 3, 2] =
     [Some 0, Some 3, Some 5] \<and>
   victim (new_LRUReplacer 3) = (False, None, new_LRUReplacer 3)"
proof -
  let ?cs = "[Unpin 1, Unpin 2, Unpin 1, Unpin 3, Pin 2, Unpin 2]"
  let ?r = "run (new_LRUReplacer 3) (map PinCall ?cs)"
  have d: "drain ?r = [1, 3, 2]"
    by (simp add: drain_rev registry_def run_def new_LRUReplacer_def unpin_def pin_def
        emplace_front_def new_node_def list_erase_def Let_def)
  have e: "drain (run (new_LRUReplacer 3) (map PinCall [])) = []"
    by (simp add: drain_rev registry_def run_def new_LRUReplacer_def)
  have t: "map (tracked_since ?cs) [1, 3, 2] = [Some 0, Some 3, Some 5]"
    by (simp add: tracked_since_def)
  show ?thesis
    using victim_lru_order [of 3 ?cs] victim_lru_order [of 3 "[]"] d e t
    by (auto simp: run_Nil)
qed

text \<open>
  Two frames: after \<^verbatim>\<open>unpin(1)\<close> and \<^verbatim>\<open>unpin(2)\<close> the first \<^verbatim>\<open>victim\<close> stores 1, the
  second stores 2, and the third returns false.
\<close>

lemma scenario_two_frames:
  "victim (run (new_LRUReplacer 2) [PinCall (Unpin 1), PinCall (Unpin 2)]) =
     (True, Some 1, run (new_LRUReplacer 2) [PinCall (Unpin 1), PinCall (Unpin 2), Victim]) \<and>
   victim (run (new_LRUReplacer 2) [PinCall (Unpin 1), PinCall (Unpin 2), Victim]) =
     (True, Some 2, run (new_LRUReplacer 2) [PinCall (Unpin 1), PinCall (Unpin 2), Victim, Victim]) \<and>
   victim (run (new_LRUReplacer 2) [PinCall (Unpin 1), PinCall (Unpin 2), Victim, Victim]) =
     (False, None, run (new_LRUReplacer 2) [PinCall (Unpin 1), PinCall (Unpin 2), Victim, Victim])"
  by (simp add: run_def new_LRUReplacer_def unpin_def victim_def emplace_front_def new_node_def
      Let_def)

text \<open>
  Claim C8. In every state reached by unpin, pin and victim calls, \<^verbatim>\<open>unpin(f)\<close> of a
  frame that is not tracked puts \<open>f\<close> at the head of the registry and the size grows by
  one; \<^verbatim>\<open>unpin(f)\<close> of a tracked frame changes nothing at all: the state, hence the
  size and every position, stays as it was.
\<close>

theorem unpin_inserts_only_untracked:
  fixes n :: nat and cs :: "call list" and f :: frame_id_t
  defines "r \<equiv> run (new_LRUReplacer n) cs"
  shows "(f \<notin> set (registry r) \<longrightarrow>
            registry (unpin f r) = f # registry r \<and> Size (unpin f r) = Suc (Size r)) \<and>
         (f \<in> set (registry r) \<longrightarrow>
            unpin f r = r \<and> registry (unpin f r) = registry r \<and> Size (unpin f r) = Size r)"
proof -
  have c: "consistent r" unfolding r_def by (rule reachable_consistent)
  have "registry (unpin f r) = f # registry r \<and> Size (unpin f r) = Suc (Size r)"
    if "f \<notin> set (registry r)"
  proof -
    have "registry (unpin f r) = f # registry r"
      using c that by (rule registry_unpin_new)
    moreover from this have "length (registry (unpin f r)) = Suc (length (registry r))" by simp
    then have "Size (unpin f r) = Suc (Size r)" by (simp add: Size_def registry_def)
    ultimately show ?thesis by simp
  qed
  moreover have "unpin f r = r" if "f \<in> set (registry r)"
    using c that by (rule unpin_tracked)
  ultimately show ?thesis by simp
qed

theorem unpin_inserts_only_untracked_witness:
  "registry (run (new_LRUReplacer 2) [PinCall (Unpin 1), PinCall (Unpin 2)]) = [2, 1] \<and>
   registry (unpin 1 (run (new_LRUReplacer 2) [PinCall (Unpin 1), PinCall (Unpin 2)])) = [2, 1] \<and>
   Size (unpin 1 (run (new_LRUReplacer 2) [PinCall (Unpin 1), PinCall (Unpin 2)])) = 2 \<and>
   registry (unpin 3 (run (new_LRUReplacer 2) [PinCall (Unpin 1), PinCall (Unpin 2)])) = [3, 2, 1] \<and>
   Size (unpin 3 (run (new_LRUReplacer 2) [PinCall (Unpin 1), PinCall (Unpin 2)])) = 3"
proof -
  let ?r = "run (new_LRUReplacer 2) [PinCall (Unpin 1), PinCall (Unpin 2)]"
  have e: "registry ?r = [2, 1]" "Size ?r = 2"
    by (simp_all add: registry_def Size_def run_def new_LRUReplacer_def unpin_def
        emplace_front_def new_node_def Let_def)
  show ?thesis
    using unpin_inserts_only_untracked [of 1 2 "[PinCall (Unpin 1), PinCall (Unpin 2)]"]
      unpin_inserts_only_untracked [of 3 2 "[PinCall (Unpin 1), PinCall (Unpin 2)]"] e
    by simp
qed

text \<open>
  Claim C9. In every state reached by unpin, pin and victim calls, \<^verbatim>\<open>pin(f)\<close> followed
  by \<^verbatim>\<open>unpin(f)\<close> leaves \<open>f\<close> at the head of the registry, before all other tracked
  frames in their old order, wherever \<open>f\<close> stood before. \<^verbatim>\<open>pin(f)\<close> alone removes
  \<open>f\<close> from the registry (one entry less when it was tracked) and changes nothing
  when \<open>f\<close> is not tracked.
\<close>

theorem pin_then_unpin_moves_to_head:
  fixes n :: nat and cs :: "call list" and f :: frame_id_t
  defines "r \<equiv> run (new_LRUReplacer n) cs"
  shows "registry (unpin f (pin f r)) = f # removeAll f (registry r) \<and>
         registry (pin f r) = removeAll f (registry r) \<and>
         (f \<in> set (registry r) \<longrightarrow> Size (pin f r) = Size r - 1) \<and>
         (f \<notin> set (registry r) \<longrightarrow> pin f r = r)"
proof -
  have c: "consistent r" unfolding r_def by (rule reachable_consistent)
  have p: "registry (pin f r) = removeAll f (registry r)"
    using c by (rule registry_pin)
  have "f \<notin> set (registry (pin f r))" by (simp add: p)
  with consistent_pin [OF c] have "registry (unpin f (pin f r)) = f # registry (pin f r)"
    by (rule registry_unpin_new)
  moreover have "Size (pin f r) = Size r - 1" if "f \<in> set (registry r)"
  proof -
    have "distinct (registry r)" using c by (rule consistent_distinct)
    then have "length (removeAll f (registry r)) = length (registry r) - 1"
      using that by (simp add: distinct_remove1_removeAll [symmetric] length_remove1)
    then have "length (registry (pin f r)) = length (registry r) - 1" by (simp add: p)
    then show ?thesis by (simp add: Size_def registry_def)
  qed
  moreover have "pin f r = r" if "f \<notin> set (registry r)"
    using c that by (rule pin_untracked)
  ultimately show ?thesis using p by simp
qed

theorem pin_then_unpin_moves_to_head_witness:
  "registry (run (new_LRUReplacer 3) [PinCall (Unpin 1), PinCall (Unpin 2), PinCall (Unpin 3)])
     = [3, 2, 1] \<and>
   registry (unpin 1 (pin 1
     (run (new_LRUReplacer 3) [PinCall (Unpin 1), PinCall (Unpin 2), PinCall (Unpin 3)])))
     = [1, 3, 2] \<and>
   Size (pin 1 (run (new_LRUReplacer 3) [PinCall (Unpin 1), PinCall (Unpin 2), PinCall (Unpin 3)]))
     = 2 \<and>
   pin 7 (run (new_LRUReplacer 3) [PinCall (Unpin 1), PinCall (Unpin 2), PinCall (Unpin 3)])
     = run (new_LRUReplacer 3) [PinCall (Unpin 1), PinCall (Unpin 2), PinCall (Unpin 3)]"
proof -
  let ?cs = "[PinCall (Unpin 1), PinCall (Unpin 2), PinCall (Unpin 3)]"
  let ?r = "run (new_LRUReplacer 3) ?cs"
  have e: "registry ?r = [3, 2, 1]" "Size ?r = 3"
    by (simp_all add: registry_def Size_def run_def new_LRUReplacer_def unpin_def
        emplace_front_def new_node_def Let_def)
  show ?thesis
    using pin_then_unpin_moves_to_head [of 1 3 ?cs] pin_then_unpin_moves_to_head [of 7 3 ?cs] e
    by simp
qed

lemma registry_run_subset:
  "set (registry (run r cs)) \<subseteq> set (registry r) \<union> {f. PinCall (Unpin f) \<in> set cs}"
  if "consistent r"
  using that
proof (induction cs arbitrary: r)
  case Nil
  then show ?case by (simp add: run_Nil)
next
  case (Cons c cs)
  have s: "set (registry (do_call c r)) \<subseteq> set (registry r) \<union> {f. c = PinCall (Unpin f)}"
    and c': "consistent (do_call c r)"
  proof -
    show "consistent (do_call c r)"
      using consistent_run [OF Cons.prems, of "[c]"] by (simp add: run_def)
    show "set (registry (do_call c r)) \<subseteq> set (registry r) \<union> {f. c = PinCall (Unpin f)}"
    proof (cases c)
      case (PinCall p)
      show ?thesis
      proof (cases p)
        case (Unpin f)
        show ?thesis
          using registry_unpin_new [OF Cons.prems, of f] unpin_tracked [OF Cons.prems, of f]
          by (cases "f \<in> set (registry r)") (auto simp: PinCall Unpin)
      next
        case (Pin f)
        then show ?thesis by (simp add: PinCall registry_pin [OF Cons.prems])
      qed
    next
      case Victim
      show ?thesis
      proof (cases "LRUlist r = []")
        case True
        then show ?thesis by (simp add: Victim victim_empty)
      next
        case False
        from victim_nonempty [OF this] show ?thesis
          by (auto simp: Victim dest: in_set_butlastD)
      qed
    qed
  qed
  from Cons.IH [OF c'] s show ?case by (auto simp: run_Cons)
qed

lemma max_size_run: "max_size (run r cs) = max_size r"
proof (induction cs arbitrary: r)
  case Nil
  then show ?case by (simp add: run_Nil)
next
  case (Cons c cs)
  have "max_size (do_call c r) = max_size r"
  proof (cases c)
    case (PinCall p)
    then show ?thesis
      by (cases p) (simp_all add: unpin_def pin_def Let_def split: option.splits)
  next
    case Victim
    then show ?thesis by (simp add: victim_def Let_def)
  qed
  with Cons.IH show ?case by (simp add: run_Cons)
qed

text \<open>
  Claim C3 does not hold for every call sequence: \<^verbatim>\<open>max_size_\<close> is stored by the
  constructor and read by no member function, so nothing bounds the list. A replacer
  built for one page tracks two frames after two unpins of different frame ids.
\<close>

theorem size_exceeds_capacity:
  "Size (run (new_LRUReplacer 1) [PinCall (Unpin 0), PinCall (Unpin 1)]) = 2 \<and>
   max_size (run (new_LRUReplacer 1) [PinCall (Unpin 0), PinCall (Unpin 1)]) = 1 \<and>
   \<not> Size (run (new_LRUReplacer 1) [PinCall (Unpin 0), PinCall (Unpin 1)]) \<le> 1"
  by (simp add: Size_def run_def new_LRUReplacer_def unpin_def emplace_front_def Let_def)

text \<open>
  Claim C3, amended. When every frame id passed to \<^verbatim>\<open>unpin\<close> is an index into the
  pool, \<open>0 \<le> f < num_pages\<close>, then after any sequence of unpin, pin and victim calls
  \<^verbatim>\<open>Size()\<close> is at most the capacity given to the constructor, which \<open>max_size\<close> still
  holds. \<^verbatim>\<open>Size()\<close> is a \<^verbatim>\<open>size_t\<close>, so it is never negative; it is the number of
  distinct tracked frame ids.
\<close>

theorem size_within_capacity:
  assumes "\<forall>f. PinCall (Unpin f) \<in> set cs \<longrightarrow> 0 \<le> f \<and> f < int n"
  shows "Size (run (new_LRUReplacer n) cs) \<le> n \<and>
         max_size (run (new_LRUReplacer n) cs) = n \<and>
         Size (run (new_LRUReplacer n) cs) = card (set (registry (run (new_LRUReplacer n) cs)))"
proof -
  let ?r = "run (new_LRUReplacer n) cs"
  have c: "consistent ?r" by (rule reachable_consistent)
  have "set (registry ?r) \<subseteq> set (registry (new_LRUReplacer n)) \<union> {f. PinCall (Unpin f) \<in> set cs}"
    by (rule registry_run_subset [OF consistent_new])
  then have "set (registry ?r) \<subseteq> {0..<int n}"
    using assms by (auto simp: registry_def new_LRUReplacer_def)
  then have "card (set (registry ?r)) \<le> card {0..<int n}"
    by (intro card_mono) simp_all
  moreover have l: "card (set (registry ?r)) = length (registry ?r)"
    using consistent_distinct [OF c] by (rule distinct_card)
  ultimately have "Size ?r \<le> n" by (simp add: Size_def registry_def)
  moreover have "max_size ?r = n" by (simp add: max_size_run new_LRUReplacer_def)
  moreover have "Size ?r = card (set (registry ?r))"
    using l by (simp add: Size_def registry_def)
  ultimately show ?thesis by simp
qed

theorem size_within_capacity_witness:
  "Size (run (new_LRUReplacer 2)
      [PinCall (Unpin 0), PinCall (Unpin 1), PinCall (Unpin 0), Victim, PinCall (Unpin 0)]) \<le> 2 \<and>
   Size (run (new_LRUReplacer 2)
      [PinCall (Unpin 0), PinCall (Unpin 1), PinCall (Unpin 0), Victim, PinCall (Unpin 0)]) = 2"
proof -
  let ?cs = "[PinCall (Unpin 0), PinCall (Unpin 1), PinCall (Unpin 0), Victim, PinCall (Unpin 0)]"
  have h: "\<forall>f. PinCall (Unpin f) \<in> set ?cs \<longrightarrow> 0 \<le> f \<and> f < int 2" by auto
  have e: "Size (run (new_LRUReplacer 2) ?cs) = 2"
    by (simp add: Size_def run_def new_LRUReplacer_def unpin_def victim_def
        emplace_front_def new_node_def Let_def)
  show ?thesis
    using size_within_capacity [OF h] e by simp
qed

section \<open>Properties of the disk manager\<close>

subsection \<open>Evaluating the example states\<close>

lemma upt4: "[0..<4] = [0, 1, 2, 3]"
  by (simp add: upt_rec)

lemma upt8: "[0..<8] = [0, 1, 2, 3, 4, 5, 6, 7]"
  by (simp add: upt_rec)

lemmas os_eval =
  sys_stat_def lowest_free_fd_def sys_open_creat_excl_def sys_open_rdwr_def sys_close_def
  sys_unlink_def fd_file_def sys_lseek_set_def sys_lseek_end_def sys_write_def sys_read_def
  pwrite_def is_file_def

lemmas dm_eval =
  create_file_def destroy_file_def open_file_def close_file_def allocate_page_def
  new_DiskManager_def dm_run_def fresh_os_def tty_def example_config_def Let_def upt8

subsection \<open>Page counters\<close>

lemma dm_run_Nil: "dm_run cfg [] st = st"
  by (simp add: dm_run_def)

lemma dm_run_Cons: "dm_run cfg (c # cs) st = dm_run cfg cs (do_dm_call cfg c st)"
  by (simp add: dm_run_def)

lemma allocate_page_valid:
  "0 \<le> fd \<Longrightarrow> fd < MAX_FD \<Longrightarrow>
   allocate_page MAX_FD fd dm =
     (Inr (fd2pageno dm fd), dm\<lparr>fd2pageno := (fd2pageno dm)(fd := fd2pageno dm fd + 1)\<rparr>)"
  by (simp add: allocate_page_def)

lemma allocate_page_invalid:
  "fd < 0 \<or> MAX_FD \<le> fd \<Longrightarrow> allocate_page MAX_FD fd dm = (Inl AssertionFailed, dm)"
  by (auto simp: allocate_page_def)

lemma upt_0_Suc_map: "[0..<Suc n] = 0 # map Suc [0..<n]"
  by (simp add: upt_conv_Cons map_Suc_upt del: upt_Suc)

lemma allocate_pages_from:
  "\<forall>h\<in>set hs. 0 \<le> h \<and> h < MAX_FD \<Longrightarrow>
   fst (allocate_pages MAX_FD hs dm) =
     map (\<lambda>i. Inr (fd2pageno dm (hs ! i) + of_nat (count_list (take i hs) (hs ! i)))) [0..<length hs]"
proof (induction hs arbitrary: dm)
  case Nil
  then show ?case by simp
next
  case (Cons h hs)
  let ?dm1 = "dm\<lparr>fd2pageno := (fd2pageno dm)(h := fd2pageno dm h + 1)\<rparr>"
  have a: "allocate_page MAX_FD h dm = (Inr (fd2pageno dm h), ?dm1)"
    using Cons.prems by (simp add: allocate_page_valid)
  have ih: "fst (allocate_pages MAX_FD hs ?dm1) =
     map (\<lambda>i. Inr (fd2pageno ?dm1 (hs ! i) + of_nat (count_list (take i hs) (hs ! i)))) [0..<length hs]"
    using Cons.prems by (intro Cons.IH) simp
  have "fst (allocate_pages MAX_FD (h # hs) dm) =
          Inr (fd2pageno dm h) # fst (allocate_pages MAX_FD hs ?dm1)"
    by (simp add: a split: prod.splits)
  also have "\<dots> = map (\<lambda>i. Inr (fd2pageno dm ((h # hs) ! i) +
                 of_nat (count_list (take i (h # hs)) ((h # hs) ! i)))) [0..<length (h # hs)]"
    unfolding ih length_Cons upt_0_Suc_map by (simp add: comp_def)
  finally show ?case .
qed

lemma fd2pageno_open_file: "fd2pageno (fst (snd (open_file p dm s))) = fd2pageno dm"
  by (simp add: open_file_def Let_def split: option.splits prod.splits)

lemma fd2pageno_close_file: "fd2pageno (fst (snd (close_file fd dm s))) = fd2pageno dm"
  by (simp add: close_file_def Let_def split: option.splits prod.splits)

lemma fd2pageno_get_file_fd: "fd2pageno (fst (snd (get_file_fd p dm s))) = fd2pageno dm"
  by (simp add: get_file_fd_def fd2pageno_open_file split: option.splits)

lemma fd2pageno_read_log_opened:
  "fd2pageno (fst (snd (snd (read_log_opened L n off dm s)))) = fd2pageno dm"
  by (simp add: read_log_opened_def Let_def split: prod.splits)

lemma fd2pageno_read_log: "fd2pageno (fst (snd (snd (read_log L n off dm s)))) = fd2pageno dm"
proof (cases "open_file L dm s")
  case (fields r dm1 s1)
  have "fd2pageno dm1 = fd2pageno dm"
    using fd2pageno_open_file [of L dm s] by (simp add: fields)
  then show ?thesis
    by (cases r) (simp_all add: read_log_def fields fd2pageno_read_log_opened)
qed

lemma fd2pageno_write_log_opened:
  "fd2pageno (fst (snd (write_log_opened buf n dm s))) = fd2pageno dm"
  by (simp add: write_log_opened_def Let_def split: prod.splits)

lemma fd2pageno_write_log: "fd2pageno (fst (snd (write_log L buf n dm s))) = fd2pageno dm"
proof (cases "open_file L dm s")
  case (fields r dm1 s1)
  have "fd2pageno dm1 = fd2pageno dm"
    using fd2pageno_open_file [of L dm s] by (simp add: fields)
  then show ?thesis
    by (cases r) (simp_all add: write_log_def fields fd2pageno_write_log_opened)
qed

lemma fd2pageno_do_dm_call:
  "fd2pageno (fst (do_dm_call cfg c (dm, s))) h =
     fd2pageno dm h + (if c = Allocate_page h \<and> 0 \<le> h \<and> h < max_fd cfg then 1 else 0)"
proof (cases c)
  case (Allocate_page fd)
  then show ?thesis by (auto simp: allocate_page_def)
qed (simp_all add: fd2pageno_open_file fd2pageno_close_file fd2pageno_get_file_fd
      fd2pageno_read_log fd2pageno_write_log deallocate_page_def)

lemma fd2pageno_dm_run:
  "0 \<le> h \<Longrightarrow> h < max_fd cfg \<Longrightarrow>
   fd2pageno (fst (dm_run cfg cs st)) h = fd2pageno (fst st) h + of_nat (allocations h cs)"
proof (induction cs arbitrary: st)
  case Nil
  then show ?case by (simp add: dm_run_Nil)
next
  case (Cons c cs)
  obtain dm s where st: "st = (dm, s)" by (cases st)
  have "fd2pageno (fst (dm_run cfg (c # cs) st)) h =
          fd2pageno (fst (do_dm_call cfg c st)) h + of_nat (allocations h cs)"
    using Cons by (simp add: dm_run_Cons)
  also have "\<dots> = fd2pageno dm h +
       (if c = Allocate_page h \<and> 0 \<le> h \<and> h < max_fd cfg then 1 else 0) + of_nat (allocations h cs)"
    by (simp only: st fd2pageno_do_dm_call)
  also have "\<dots> = fd2pageno (fst st) h + of_nat (allocations h (c # cs))"
    using Cons.prems by (cases c) (auto simp: st)
  finally show ?case .
qed


subsection \<open>System calls\<close>

lemma fd_file_SomeD:
  "fd_file s fd = Some (d, c) \<Longrightarrow>
   fds s fd = Some d \<and> ofd_ino d < length (inodes s) \<and> inodes s ! ofd_ino d = Reg c"
  by (auto simp: fd_file_def split: option.splits if_splits inode.splits)

lemma fd_file_SomeI:
  "fds s fd = Some d \<Longrightarrow> ofd_ino d < length (inodes s) \<Longrightarrow> inodes s ! ofd_ino d = Reg c \<Longrightarrow>
   fd_file s fd = Some (d, c)"
  by (simp add: fd_file_def)

lemma sys_lseek_set_valid:
  assumes "fd_file s fd = Some (d, c)" "0 \<le> off"
  shows "sys_lseek_set s fd off = (off, s\<lparr>fds := (fds s)(fd \<mapsto> d\<lparr>ofd_pos := nat off\<rparr>)\<rparr>)"
    and "fd_file (s\<lparr>fds := (fds s)(fd \<mapsto> d\<lparr>ofd_pos := nat off\<rparr>)\<rparr>) fd = Some (d\<lparr>ofd_pos := nat off\<rparr>, c)"
  using assms fd_file_SomeD [OF assms(1)]
  by (simp_all add: sys_lseek_set_def fd_file_def)

lemma sys_write_valid:
  assumes "fd_file s fd = Some (d, c)" "ofd_acc d \<noteq> O_RDONLY" "0 < n"
    and k: "k = min (nat n) (write_limit s)" "0 < k"
  shows "\<exists>s'. sys_write s fd buf n = (int k, s') \<and>
           fd_file s' fd = Some (d\<lparr>ofd_pos := ofd_pos d + k\<rparr>, pwrite c (ofd_pos d) (take k buf)) \<and>
           write_limit s' = write_limit s"
proof -
  have m: "min (nat n) (write_limit s) = k" "k \<noteq> 0" using k by simp_all
  note D = fd_file_SomeD [OF assms(1)]
  let ?s' = "s\<lparr>inodes := (inodes s)[ofd_ino d := Reg (pwrite c (ofd_pos d) (take k buf))],
                fds := (fds s)(fd \<mapsto> d\<lparr>ofd_pos := ofd_pos d + k\<rparr>)\<rparr>"
  have "sys_write s fd buf n = (int k, ?s')"
    using assms(1-3) m by (simp add: sys_write_def Let_def)
  moreover have "fd_file ?s' fd =
      Some (d\<lparr>ofd_pos := ofd_pos d + k\<rparr>, pwrite c (ofd_pos d) (take k buf))"
    using D by (intro fd_file_SomeI) simp_all
  ultimately show ?thesis by simp
qed

lemma sys_write_zero:
  assumes "fd_file s fd = Some (d, c)" "ofd_acc d \<noteq> O_RDONLY" "0 \<le> n" "min (nat n) (write_limit s) = 0"
  shows "sys_write s fd buf n = (0, s)"
  using assms by (simp add: sys_write_def Let_def)

lemma sys_read_valid:
  assumes "fd_file s fd = Some (d, c)" "ofd_acc d \<noteq> O_WRONLY" "0 \<le> n"
  shows "\<exists>s'. sys_read s fd n =
            (int (length (take (nat n) (drop (ofd_pos d) c))), take (nat n) (drop (ofd_pos d) c), s') \<and>
           inodes s' = inodes s \<and> names s' = names s"
  using assms by (simp add: sys_read_def Let_def)


subsection \<open>Pages\<close>







text \<open>
  At page 1048576 the 32-bit product is 0 again, \<open>2 ^ 32\<close> too small: the page is written
  over page 0.
\<close>

lemma page_offset_aliases:
  "sint ((1048576 :: page_id_t) * 4096) = 0 \<and>
   (\<exists>s1 d1. write_page 4096 3 1048576 [171, 171, 171] 3 (db_os [7, 7, 7, 7] 4096) = (Inr (), s1) \<and>
      fd_file s1 3 = Some (d1, [171, 171, 171, 7]))"
  by (simp add: write_page_def sys_lseek_set_def sys_write_def fd_file_def db_os_def pwrite_def
      Let_def)





text \<open>
  A file is created and opened, page 0 is allocated and written with 4096 bytes
  \<open>0xAB\<close>, the file is closed and opened again, and page 0 reads back as written.
\<close>

lemma scenario_page:
  "(let st0 = (new_DiskManager, snd (create_file ''t.db'' (fresh_os 8 4096)));
        (r1, dm1, s1) = open_file ''t.db'' (fst st0) (snd st0);
        (r2, dm2) = allocate_page 8192 3 dm1;
        (r3, s3) = write_page 4096 3 0 page_ab 4096 s1;
        (r4, dm4, s4) = close_file 3 dm2 s3;
        (r5, dm5, s5) = open_file ''t.db'' dm4 s4;
        (r6, out, s6) = read_page 4096 3 0 4096 s5
    in r1 = Inr 3 \<and> r2 = Inr 0 \<and> r3 = Inr () \<and> r4 = Inr () \<and> r5 = Inr 3 \<and> r6 = Inr () \<and>
       out = page_ab)"
  by (simp add: dm_eval os_eval write_page_def read_page_def page_ab_def)

subsection \<open>Page numbers\<close>

lemma count_list_replicate_same: "count_list (replicate n x) x = n"
  by (induction n) simp_all

lemma page_no_small: "n < 2 ^ 31 \<Longrightarrow> sint (word_of_nat n :: page_id_t) = int n"
proof -
  assume n: "n < 2 ^ 31"
  have "- (2 ^ 31) \<le> int n" by (rule order_trans [of _ 0]) simp_all
  moreover have "int n < 2 ^ 31" using n by simp
  ultimately have "signed_take_bit 31 (int n) = int n" by (rule signed_take_bit_int_eq_self)
  then show ?thesis using signed_of_nat [where ?'b = 32 and ?'a = int, of n] by simp
qed

lemma page_no_zero: "n < 2 ^ 32 \<Longrightarrow> word_of_nat n = (0 :: page_id_t) \<longleftrightarrow> n = 0"
proof -
  assume n: "n < 2 ^ 32"
  have "(2::nat) ^ 32 dvd n \<longleftrightarrow> n = 0"
  proof
    assume "(2::nat) ^ 32 dvd n"
    then show "n = 0" using n by (meson nat_dvd_not_less not_gr_zero)
  qed simp
  then show ?thesis by (simp add: word_of_nat_eq_0_iff)
qed

lemma allocate_pages_same_handle:
  assumes "0 \<le> h" and "h < MAX_FD" and "i < n"
  shows "fst (allocate_pages MAX_FD (replicate n h) new_DiskManager) ! i = Inr (word_of_nat i)"
proof -
  have v: "\<forall>x\<in>set (replicate n h). 0 \<le> x \<and> x < MAX_FD" using assms(1,2) by simp
  show ?thesis
    using assms(3)
    by (simp add: allocate_pages_from [OF v] new_DiskManager_def count_list_replicate_same)
qed

lemma allocations_replicate: "allocations h (replicate n (Allocate_page h)) = n"
  by (induction n) simp_all

text \<open>
  Claim C5 does not hold for every call: the counter is a \<^verbatim>\<open>std::atomic<page_id_t>\<close> and
  its increment wraps around. The first 2 ^ 31 calls on handle 3 return 0 up to
  2147483647; the next call returns -2147483648, which is neither one more than the
  number before nor a page number from 0.
\<close>

theorem allocate_page_wraps:
  "fst (allocate_pages 8192 (replicate 2147483649 3) new_DiskManager) ! 2147483647 =
     Inr 2147483647 \<and>
   fst (allocate_pages 8192 (replicate 2147483649 3) new_DiskManager) ! 2147483648 =
     Inr (- 2147483648) \<and>
   sint (2147483647 :: page_id_t) = 2147483647 \<and>
   sint (- 2147483648 :: page_id_t) = - 2147483648"
proof -
  have a: "fst (allocate_pages 8192 (replicate 2147483649 3) new_DiskManager) ! 2147483647 =
      Inr (word_of_nat 2147483647)"
    by (rule allocate_pages_same_handle) simp_all
  have b: "fst (allocate_pages 8192 (replicate 2147483649 3) new_DiskManager) ! 2147483648 =
      Inr (word_of_nat 2147483648)"
    by (rule allocate_pages_same_handle) simp_all
  show ?thesis unfolding a b by simp
qed

text \<open>
  Claim C5, with the counter as the code has it. After the constructor, in any sequence
  of \<^verbatim>\<open>allocate_page\<close> calls on handles from 0 up to \<^verbatim>\<open>MAX_FD\<close>, every call returns the
  number of earlier calls on the same handle as a 32-bit number, whatever calls on other
  handles come in between; for the first 2 ^ 31 calls on a handle that is 0, 1, 2 and so
  on. On a handle outside this range the \<^verbatim>\<open>assert\<close> fails and no counter changes.
\<close>

theorem allocate_page_counts_up:
  "((\<forall>h\<in>set hs. 0 \<le> h \<and> h < MAX_FD) \<longrightarrow>
      fst (allocate_pages MAX_FD hs new_DiskManager) =
        map (\<lambda>i. Inr (word_of_nat (count_list (take i hs) (hs ! i)))) [0..<length hs]) \<and>
   ((\<forall>h\<in>set hs. 0 \<le> h \<and> h < MAX_FD) \<and> i < length hs \<and>
    count_list (take i hs) (hs ! i) < 2 ^ 31 \<longrightarrow>
      map_sum id sint (fst (allocate_pages MAX_FD hs new_DiskManager) ! i) =
        Inr (int (count_list (take i hs) (hs ! i)))) \<and>
   (fd < 0 \<or> MAX_FD \<le> fd \<longrightarrow> allocate_page MAX_FD fd dm = (Inl AssertionFailed, dm))"
proof -
  have A: "fst (allocate_pages MAX_FD hs new_DiskManager) =
        map (\<lambda>i. Inr (word_of_nat (count_list (take i hs) (hs ! i)))) [0..<length hs]"
    if "\<forall>h\<in>set hs. 0 \<le> h \<and> h < MAX_FD"
    using allocate_pages_from [OF that, of new_DiskManager]
    by (simp add: new_DiskManager_def)
  have B: "map_sum id sint (fst (allocate_pages MAX_FD hs new_DiskManager) ! i) =
        Inr (int (count_list (take i hs) (hs ! i)))"
    if v: "\<forall>h\<in>set hs. 0 \<le> h \<and> h < MAX_FD" and i: "i < length hs"
      and c: "count_list (take i hs) (hs ! i) < 2 ^ 31"
    unfolding A [OF v] using i page_no_small [OF c] by simp
  have C: "allocate_page MAX_FD fd dm = (Inl AssertionFailed, dm)"
    if "fd < 0 \<or> MAX_FD \<le> fd"
    using that by (rule allocate_page_invalid)
  from A B C show ?thesis by blast
qed

theorem allocate_page_counts_up_witness:
  "fst (allocate_pages 8192 [3, 4, 3, 3, 4] new_DiskManager) = [Inr 0, Inr 0, Inr 1, Inr 2, Inr 1] \<and>
   map_sum id sint (fst (allocate_pages 8192 [3, 4, 3, 3, 4] new_DiskManager) ! 3) = Inr 2 \<and>
   allocate_page 8192 8192 new_DiskManager = (Inl AssertionFailed, new_DiskManager) \<and>
   allocate_page 8192 (- 1) new_DiskManager = (Inl AssertionFailed, new_DiskManager)"
proof -
  have h: "\<forall>h\<in>set [3, 4, 3, 3, 4 :: int]. 0 \<le> h \<and> h < 8192" by simp
  have u: "[0..<5] = [0, 1, 2, 3, 4]" by (simp add: upt_rec)
  show ?thesis
    using allocate_page_counts_up [of "[3, 4, 3, 3, 4]" 8192 3 8192 new_DiskManager]
      allocate_page_counts_up [of "[]" 8192 0 "- 1" new_DiskManager] h
    by (simp add: u)
qed

text \<open>
  Claim C10 does not hold as it stands: the counter of a handle is changed by
  \<^verbatim>\<open>allocate_page\<close> alone, but since it wraps around, \<^verbatim>\<open>allocate_page\<close> returns 0 again
  on a handle that has been allocated from 2 ^ 32 times.
\<close>

theorem page_counter_returns_to_zero:
  "allocations 3 (replicate 4294967296 (Allocate_page 3)) = 4294967296 \<and>
   fst (allocate_page 8192 3
     (fst (dm_run example_config (replicate 4294967296 (Allocate_page 3))
        (new_DiskManager, fresh_os 8 4096)))) = Inr 0"
proof -
  let ?cs = "replicate 4294967296 (Allocate_page 3)"
  let ?st = "(new_DiskManager, fresh_os 8 4096)"
  have n: "allocations 3 ?cs = 4294967296" by (rule allocations_replicate)
  have m: "max_fd example_config = 8192" by (simp add: example_config_def)
  have "fd2pageno (fst (dm_run example_config ?cs ?st)) 3 =
          fd2pageno (fst ?st) 3 + of_nat (allocations 3 ?cs)"
    by (rule fd2pageno_dm_run) (simp_all add: m)
  then have "fd2pageno (fst (dm_run example_config ?cs ?st)) 3 = 0"
    unfolding n by (simp add: new_DiskManager_def)
  then have "fst (allocate_page 8192 3 (fst (dm_run example_config ?cs ?st))) = Inr 0"
    by (simp add: allocate_page_valid)
  with n show ?thesis by blast
qed

text \<open>
  Claim C10, with the counter as the code has it. \<^verbatim>\<open>close_file\<close> leaves every page
  counter (and the log descriptor) as it was. After any sequence \<open>cs\<close> of calls of member
  functions on a fresh disk manager, in any state of the file system, \<^verbatim>\<open>allocate_page(h)\<close>
  on a handle in the range returns the number of \<^verbatim>\<open>allocate_page(h)\<close> calls in \<open>cs\<close> as a
  32-bit number: no other call changes the counter, and a handle value that a later
  \<^verbatim>\<open>open_file\<close> hands out again goes on where the earlier file stopped. After fewer than
  2 ^ 32 such calls it returns 0 only when \<open>h\<close> was never allocated from, and after fewer
  than 2 ^ 31 it returns their number.
\<close>

theorem counters_change_only_in_allocate_page:
  "fd2pageno (fst (snd (close_file fd dm s))) = fd2pageno dm \<and>
   log_fd (fst (snd (close_file fd dm s))) = log_fd dm \<and>
   (0 \<le> h \<and> h < max_fd cfg \<longrightarrow>
      fst (allocate_page (max_fd cfg) h (fst (dm_run cfg cs (new_DiskManager, s0)))) =
        Inr (word_of_nat (allocations h cs)) \<and>
      (allocations h cs < 2 ^ 32 \<longrightarrow>
         (fst (allocate_page (max_fd cfg) h (fst (dm_run cfg cs (new_DiskManager, s0)))) = Inr 0
            \<longleftrightarrow> allocations h cs = 0)) \<and>
      (allocations h cs < 2 ^ 31 \<longrightarrow>
         map_sum id sint
           (fst (allocate_page (max_fd cfg) h (fst (dm_run cfg cs (new_DiskManager, s0))))) =
         Inr (int (allocations h cs))))"
proof -
  let ?r = "fst (allocate_page (max_fd cfg) h (fst (dm_run cfg cs (new_DiskManager, s0))))"
  have A: "fd2pageno (fst (snd (close_file fd dm s))) = fd2pageno dm"
    by (rule fd2pageno_close_file)
  have B: "log_fd (fst (snd (close_file fd dm s))) = log_fd dm"
    by (simp add: close_file_def Let_def split: option.splits prod.splits)
  have C: "?r = Inr (word_of_nat (allocations h cs))" if "0 \<le> h \<and> h < max_fd cfg"
    using that fd2pageno_dm_run [of h cfg cs "(new_DiskManager, s0)"]
    by (simp add: allocate_page_valid new_DiskManager_def)
  have D: "?r = Inr 0 \<longleftrightarrow> allocations h cs = 0"
    if v: "0 \<le> h \<and> h < max_fd cfg" and n: "allocations h cs < 2 ^ 32"
    unfolding C [OF v] using page_no_zero [OF n] by simp
  have E: "map_sum id sint ?r = Inr (int (allocations h cs))"
    if v: "0 \<le> h \<and> h < max_fd cfg" and n: "allocations h cs < 2 ^ 31"
    unfolding C [OF v] using page_no_small [OF n] by simp
  from A B C D E show ?thesis by blast
qed

theorem counters_change_only_in_allocate_page_witness:
  "path2fd (fst (dm_run example_config
      [Create_file ''a'', Create_file ''b'', Open_file ''a'', Allocate_page 3, Close_file 3,
       Open_file ''b''] (new_DiskManager, fresh_os 8 4096))) ''b'' = Some 3 \<and>
   fst (allocate_page 8192 3 (fst (dm_run example_config
      [Create_file ''a'', Create_file ''b'', Open_file ''a'', Allocate_page 3, Close_file 3,
       Open_file ''b''] (new_DiskManager, fresh_os 8 4096)))) = Inr 1"
proof -
  let ?cs = "[Create_file ''a'', Create_file ''b'', Open_file ''a'', Allocate_page 3, Close_file 3,
       Open_file ''b'']"
  have p: "path2fd (fst (dm_run example_config ?cs (new_DiskManager, fresh_os 8 4096))) ''b'' = Some 3"
    by (simp add: dm_eval os_eval)
  have m: "max_fd example_config = 8192" by (simp add: example_config_def)
  show ?thesis
    using counters_change_only_in_allocate_page [of 3 new_DiskManager "fresh_os 8 4096" 3
        example_config ?cs "fresh_os 8 4096"] p
    by (simp add: m)
qed


subsection \<open>Files\<close>

lemma sys_stat_same:
  "names s' = names s \<Longrightarrow> inodes s' = inodes s \<Longrightarrow> sys_stat s' p = sys_stat s p"
  by (simp add: sys_stat_def split: option.splits)

lemma is_file_same:
  "names s' = names s \<Longrightarrow> inodes s' = inodes s \<Longrightarrow> is_file s' p = is_file s p"
  using sys_stat_same [of s' s p] by (simp add: is_file_def)

lemma sys_close_same: "names (snd (sys_close s fd)) = names s" "inodes (snd (sys_close s fd)) = inodes s"
  by (simp_all add: sys_close_def)

lemma create_file_exists:
  "sys_stat s p \<noteq> None \<Longrightarrow> create_file p s = (Inl (FileExistsError p), s)"
  by (simp add: create_file_def sys_open_creat_excl_def)

lemma create_file_Inr:
  assumes "create_file p s = (Inr (), s1)"
  shows "sys_stat s1 p = Some (Reg [])"
proof -
  obtain fd s' where o: "sys_open_creat_excl s p = (fd, s')" by (cases "sys_open_creat_excl s p")
  with assms have fd: "fd \<noteq> - 1" and s1: "s1 = snd (sys_close s' fd)"
    by (auto simp: create_file_def split: if_splits)
  from o fd have "sys_stat s' p = Some (Reg [])"
    by (auto simp: sys_open_creat_excl_def sys_stat_def split: if_splits option.splits)
  moreover have "sys_stat (snd (sys_close s' fd)) p = sys_stat s' p"
    by (rule sys_stat_same) (rule sys_close_same)+
  ultimately show ?thesis by (simp add: s1)
qed

lemma destroy_file_open:
  "path2fd dm p \<noteq> None \<Longrightarrow> destroy_file p dm s = (Inl (FileNotClosedError p), s)"
  by (simp add: destroy_file_def)

lemma destroy_file_closed:
  assumes "path2fd dm p = None" "is_file s p"
  shows "destroy_file p dm s = (Inr (), s\<lparr>names := (names s)(p := None)\<rparr>)"
    and "\<not> is_file (s\<lparr>names := (names s)(p := None)\<rparr>) p"
  using assms
  by (auto simp: destroy_file_def sys_unlink_def is_file_def sys_stat_def
      split: option.splits inode.splits if_splits)

lemma close_file_Inr:
  assumes "fd2path dm h = Some p" "close_file h dm s = (Inr (), dm', s')"
  shows "path2fd dm' p = None" and "fd2path dm' h = None"
    and "names s' = names s" and "inodes s' = inodes s"
  using assms
  by (auto simp: close_file_def sys_close_def Let_def split: if_splits)

lemma destroy_after_close:
  assumes h: "fd2path dm h = Some p" and f: "is_file s p"
    and c: "close_file h dm s = (Inr (), dm', s')"
  shows "path2fd dm' p = None \<and>
         (\<exists>s''. destroy_file p dm' s' = (Inr (), s'') \<and> \<not> is_file s'' p)"
proof -
  note cl = close_file_Inr [OF h c]
  have "is_file s' p" using f is_file_same [OF cl(3,4)] by simp
  from destroy_file_closed [OF cl(1) this] cl(1) show ?thesis by blast
qed

text \<open>
  In every state that calls of the member functions reach from a fresh disk manager
  (\<^verbatim>\<open>create_dir\<close> and \<^verbatim>\<open>destroy_dir\<close> apart, which run a shell command), the path of a
  tracked handle names a regular file.
\<close>

lemma is_file_iff:
  "is_file s p \<longleftrightarrow> (\<exists>i c. names s p = Some i \<and> i < length (inodes s) \<and> inodes s ! i = Reg c)"
  by (auto simp: is_file_def sys_stat_def split: option.splits inode.splits elim: S_ISREG.elims)

lemma is_file_fds [simp]: "is_file (s\<lparr>fds := x\<rparr>) p = is_file s p"
  by (simp add: is_file_iff)

lemma is_file_sys_lseek_set: "is_file (snd (sys_lseek_set s fd off)) p = is_file s p"
  by (simp add: sys_lseek_set_def split: option.splits prod.splits)

lemma is_file_sys_lseek_end: "is_file (snd (sys_lseek_end s fd)) p = is_file s p"
  by (simp add: sys_lseek_end_def split: option.splits prod.splits)

lemma is_file_sys_read: "is_file (snd (snd (sys_read s fd n))) p = is_file s p"
  by (simp add: sys_read_def Let_def split: option.splits prod.splits)

lemma is_file_sys_close: "is_file (snd (sys_close s fd)) p = is_file s p"
  by (simp add: sys_close_def)

lemma is_file_sys_open_rdwr: "is_file (snd (sys_open_rdwr s q)) p = is_file s p"
  by (simp add: sys_open_rdwr_def split: option.splits inode.splits)

lemma is_file_sys_write: "is_file s p \<Longrightarrow> is_file (snd (sys_write s fd buf n)) p"
proof -
  assume f: "is_file s p"
  show ?thesis
  proof (cases "fd_file s fd")
    case None
    then show ?thesis using f by (simp add: sys_write_def)
  next
    case (Some dc)
    obtain d c where dc: "dc = (d, c)" by (cases dc)
    from f obtain i c' where i: "names s p = Some i" "i < length (inodes s)" "inodes s ! i = Reg c'"
      by (auto simp: is_file_iff)
    have "is_file (s\<lparr>inodes := (inodes s)[ofd_ino d := Reg x], fds := y\<rparr>) p" for x y
      using i by (cases "i = ofd_ino d") (auto simp: is_file_iff)
    then show ?thesis using f Some dc by (simp add: sys_write_def Let_def)
  qed
qed

lemma is_file_sys_open_creat_excl: "is_file s p \<Longrightarrow> is_file (snd (sys_open_creat_excl s q)) p"
proof -
  assume f: "is_file s p"
  then obtain i c where i: "names s p = Some i" "i < length (inodes s)" "inodes s ! i = Reg c"
    by (auto simp: is_file_iff)
  show ?thesis
  proof (cases "sys_stat s q \<noteq> None \<or> lowest_free_fd s = None")
    case True
    then show ?thesis using f by (auto simp: sys_open_creat_excl_def)
  next
    case False
    then have "q \<noteq> p" using i by (auto simp: sys_stat_def)
    then show ?thesis
      using False i by (auto simp: sys_open_creat_excl_def is_file_iff nth_append)
  qed
qed

lemma is_file_sys_unlink: "is_file s p \<Longrightarrow> q \<noteq> p \<Longrightarrow> is_file (snd (sys_unlink s q)) p"
  by (auto simp: sys_unlink_def is_file_iff split: option.splits inode.splits)

lemma is_file_create_file: "is_file s p \<Longrightarrow> is_file (snd (create_file q s)) p"
  using is_file_sys_open_creat_excl [of s p q]
  by (auto simp: create_file_def is_file_sys_close split: prod.splits)

lemma is_file_destroy_file:
  "is_file s p \<Longrightarrow> path2fd dm p \<noteq> None \<Longrightarrow> is_file (snd (destroy_file q dm s)) p"
proof (cases "path2fd dm q")
  case (Some h)
  assume "is_file s p"
  then show ?thesis using Some by (simp add: destroy_file_def)
next
  case None
  assume f: "is_file s p" and t: "path2fd dm p \<noteq> None"
  then have "q \<noteq> p" using None by auto
  from is_file_sys_unlink [OF f this] show ?thesis
    using None by (auto simp: destroy_file_def split: prod.splits)
qed

lemma is_file_write_page: "is_file s p \<Longrightarrow> is_file (snd (write_page P fd page_no buf n s)) p"
proof -
  assume f: "is_file s p"
  obtain r s1 where l: "sys_lseek_set s fd (sint (page_no * P)) = (r, s1)"
    by (cases "sys_lseek_set s fd (sint (page_no * P))")
  have f1: "is_file s1 p" using f is_file_sys_lseek_set [of s fd "sint (page_no * P)" p] l by simp
  obtain b s2 where w: "sys_write s1 fd buf n = (b, s2)" by (cases "sys_write s1 fd buf n")
  have "is_file s2 p" using is_file_sys_write [OF f1, of fd buf n] w by simp
  then show ?thesis using f1 by (simp add: write_page_def l w Let_def)
qed

lemma is_file_read_page: "is_file (snd (snd (read_page P fd page_no n s))) p = is_file s p"
proof -
  obtain r s1 where l: "sys_lseek_set s fd (sint (page_no * P)) = (r, s1)"
    by (cases "sys_lseek_set s fd (sint (page_no * P))")
  have f1: "is_file s1 p = is_file s p" using is_file_sys_lseek_set [of s fd "sint (page_no * P)" p] l by simp
  obtain b data s2 where w: "sys_read s1 fd n = (b, data, s2)" by (cases "sys_read s1 fd n")
  have "is_file s2 p = is_file s1 p" using is_file_sys_read [of s1 fd n p] w by simp
  then show ?thesis using f1 by (simp add: read_page_def l w Let_def)
qed

lemma tracked_exist_os:
  "tracked_exist dm s \<Longrightarrow> (\<And>p. path2fd dm p \<noteq> None \<Longrightarrow> is_file s p \<Longrightarrow> is_file s' p) \<Longrightarrow>
   tracked_exist dm s'"
  unfolding tracked_exist_def by blast

lemma tracked_exist_log_fd [simp]: "tracked_exist (dm\<lparr>log_fd := x\<rparr>) s = tracked_exist dm s"
  by (simp add: tracked_exist_def)

lemma tracked_exist_open_file:
  assumes "tracked_exist dm s"
  shows "tracked_exist (fst (snd (open_file p dm s))) (snd (snd (open_file p dm s)))"
proof (cases "is_file s p \<and> path2fd dm p = None")
  case False
  then show ?thesis using assms by (auto simp: open_file_def split: option.splits)
next
  case True
  obtain fd s1 where o: "sys_open_rdwr s p = (fd, s1)" by (cases "sys_open_rdwr s p")
  have f: "is_file s1 q = is_file s q" for q using is_file_sys_open_rdwr [of s p q] o by simp
  have r: "open_file p dm s =
    (Inr fd, dm\<lparr>path2fd := (path2fd dm)(p \<mapsto> fd), fd2path := (fd2path dm)(fd \<mapsto> p)\<rparr>, s1)"
    using True o by (simp add: open_file_def Let_def)
  show ?thesis
    unfolding r using assms True by (auto simp: tracked_exist_def f)
qed

lemma tracked_exist_close_file:
  assumes "tracked_exist dm s"
  shows "tracked_exist (fst (snd (close_file fd dm s))) (snd (snd (close_file fd dm s)))"
proof (cases "fd2path dm fd")
  case None
  then show ?thesis using assms by (simp add: close_file_def)
next
  case (Some p)
  show ?thesis
  proof (cases "fds s fd = None")
    case True
    then show ?thesis using assms Some by (simp add: close_file_def sys_close_def)
  next
    case False
    then have r: "close_file fd dm s =
      (Inr (), dm\<lparr>fd2path := (fd2path dm)(fd := None), path2fd := (path2fd dm)(p := None)\<rparr>,
       s\<lparr>fds := (fds s)(fd := None)\<rparr>)"
      using Some by (simp add: close_file_def sys_close_def Let_def)
    have j1: "\<And>h q. fd2path dm h = Some q \<Longrightarrow> path2fd dm q = Some h"
      and j2: "\<And>q h. path2fd dm q = Some h \<Longrightarrow> is_file s q"
      using assms by (auto simp: tracked_exist_def)
    have "path2fd dm q = Some h \<and> q \<noteq> p" if "h \<noteq> fd" "fd2path dm h = Some q" for h q
      using that j1 [OF that(2)] j1 [OF Some] by auto
    then show ?thesis
      unfolding r using j2 by (auto simp: tracked_exist_def)
  qed
qed


lemma tracked_exist_get_file_fd:
  "tracked_exist dm s \<Longrightarrow>
   tracked_exist (fst (snd (get_file_fd p dm s))) (snd (snd (get_file_fd p dm s)))"
  using tracked_exist_open_file [of dm s p]
  by (simp add: get_file_fd_def split: option.splits)

lemma is_file_read_log_opened:
  "is_file (snd (snd (snd (read_log_opened L n off dm s)))) p = is_file s p"
proof -
  obtain r s1 where l: "sys_lseek_set s (log_fd dm) off = (r, s1)"
    by (cases "sys_lseek_set s (log_fd dm) off")
  have f1: "is_file s1 p = is_file s p" using is_file_sys_lseek_set [of s "log_fd dm" off p] l by simp
  have "is_file s2 p = is_file s p" if "sys_read s1 fd m = (b, data, s2)" for fd m b data s2
    using is_file_sys_read [of s1 fd m p] f1 that by simp
  then show ?thesis
    by (auto simp: read_log_opened_def l Let_def split: prod.splits)
qed

lemma dm_read_log_opened: "fst (snd (snd (read_log_opened L n off dm s))) = dm"
  by (simp add: read_log_opened_def Let_def split: prod.splits)

lemma is_file_write_log_opened:
  "is_file s p \<Longrightarrow> is_file (snd (snd (write_log_opened buf n dm s))) p"
proof -
  assume f: "is_file s p"
  obtain r s1 where l: "sys_lseek_end s (log_fd dm) = (r, s1)"
    by (cases "sys_lseek_end s (log_fd dm)")
  have f1: "is_file s1 p" using f is_file_sys_lseek_end [of s "log_fd dm" p] l by simp
  obtain b s2 where w: "sys_write s1 (log_fd dm) buf n = (b, s2)"
    by (cases "sys_write s1 (log_fd dm) buf n")
  have "is_file s2 p" using is_file_sys_write [OF f1, of "log_fd dm" buf n] w by simp
  then show ?thesis by (simp add: write_log_opened_def l w)
qed

lemma dm_write_log_opened: "fst (snd (write_log_opened buf n dm s)) = dm"
  by (simp add: write_log_opened_def Let_def split: prod.splits)

lemma tracked_exist_read_log:
  assumes "tracked_exist dm s"
  shows "tracked_exist (fst (snd (snd (read_log L n off dm s)))) (snd (snd (snd (read_log L n off dm s))))"
proof (cases "log_fd dm = - 1")
  case False
  have "tracked_exist dm (snd (snd (snd (read_log_opened L n off dm s))))"
    using assms by (rule tracked_exist_os) (simp add: is_file_read_log_opened)
  then show ?thesis using False by (simp add: read_log_def dm_read_log_opened)
next
  case True
  obtain r dm1 s1 where o: "open_file L dm s = (r, dm1, s1)" by (cases "open_file L dm s")
  have t1: "tracked_exist dm1 s1" using tracked_exist_open_file [OF assms, of L] o by simp
  show ?thesis
  proof (cases r)
    case (Inl e)
    then show ?thesis using True o t1 by (simp add: read_log_def)
  next
    case (Inr fd)
    have "tracked_exist (dm1\<lparr>log_fd := fd\<rparr>) s1" using t1 by simp
    then have "tracked_exist (dm1\<lparr>log_fd := fd\<rparr>)
        (snd (snd (snd (read_log_opened L n off (dm1\<lparr>log_fd := fd\<rparr>) s1))))"
      by (rule tracked_exist_os) (simp add: is_file_read_log_opened)
    then show ?thesis using True o Inr by (simp add: read_log_def dm_read_log_opened)
  qed
qed

lemma tracked_exist_write_log:
  assumes "tracked_exist dm s"
  shows "tracked_exist (fst (snd (write_log L buf n dm s))) (snd (snd (write_log L buf n dm s)))"
proof (cases "log_fd dm = - 1")
  case False
  have "tracked_exist dm (snd (snd (write_log_opened buf n dm s)))"
    using assms by (rule tracked_exist_os) (rule is_file_write_log_opened)
  then show ?thesis using False by (simp add: write_log_def dm_write_log_opened)
next
  case True
  obtain r dm1 s1 where o: "open_file L dm s = (r, dm1, s1)" by (cases "open_file L dm s")
  have t1: "tracked_exist dm1 s1" using tracked_exist_open_file [OF assms, of L] o by simp
  show ?thesis
  proof (cases r)
    case (Inl e)
    then show ?thesis using True o t1 by (simp add: write_log_def)
  next
    case (Inr fd)
    have "tracked_exist (dm1\<lparr>log_fd := fd\<rparr>) s1" using t1 by simp
    then have "tracked_exist (dm1\<lparr>log_fd := fd\<rparr>)
        (snd (snd (write_log_opened buf n (dm1\<lparr>log_fd := fd\<rparr>) s1)))"
      by (rule tracked_exist_os) (rule is_file_write_log_opened)
    then show ?thesis using True o Inr by (simp add: write_log_def dm_write_log_opened)
  qed
qed

lemma tracked_exist_do_dm_call:
  assumes "tracked_exist dm s" "no_shell c"
  shows "tracked_exist (fst (do_dm_call cfg c (dm, s))) (snd (do_dm_call cfg c (dm, s)))"
proof (cases c)
  case (Write_page fd page_no buf n)
  have "tracked_exist dm (snd (write_page (page_size cfg) fd page_no buf n s))"
    using assms(1) by (rule tracked_exist_os) (rule is_file_write_page)
  then show ?thesis by (simp add: Write_page)
next
  case (Read_page fd page_no n)
  have "tracked_exist dm (snd (snd (read_page (page_size cfg) fd page_no n s)))"
    using assms(1) by (rule tracked_exist_os) (simp add: is_file_read_page)
  then show ?thesis by (simp add: Read_page)
next
  case (Allocate_page fd)
  then show ?thesis using assms(1) by (simp add: allocate_page_def tracked_exist_def)
next
  case (Deallocate_page x)
  then show ?thesis using assms(1) by (simp add: deallocate_page_def)
next
  case (Create_file p)
  have "tracked_exist dm (snd (create_file p s))"
    using assms(1) by (rule tracked_exist_os) (rule is_file_create_file)
  then show ?thesis by (simp add: Create_file)
next
  case (Destroy_file p)
  have "tracked_exist dm (snd (destroy_file p dm s))"
    using assms(1) by (rule tracked_exist_os) (rule is_file_destroy_file)
  then show ?thesis by (simp add: Destroy_file)
next
  case (Open_file p)
  then show ?thesis using tracked_exist_open_file [OF assms(1)] by simp
next
  case (Close_file fd)
  then show ?thesis using tracked_exist_close_file [OF assms(1)] by simp
next
  case (Get_file_fd p)
  then show ?thesis using tracked_exist_get_file_fd [OF assms(1)] by simp
next
  case (Read_log n off)
  then show ?thesis using tracked_exist_read_log [OF assms(1)] by simp
next
  case (Write_log buf n)
  then show ?thesis using tracked_exist_write_log [OF assms(1)] by simp
qed (use assms in simp_all)

lemma tracked_exist_dm_run:
  "tracked_exist (fst st) (snd st) \<Longrightarrow> list_all no_shell cs \<Longrightarrow>
   tracked_exist (fst (dm_run cfg cs st)) (snd (dm_run cfg cs st))"
proof (induction cs arbitrary: st)
  case Nil
  then show ?case by (simp add: dm_run_Nil)
next
  case (Cons c cs)
  obtain dm s where st: "st = (dm, s)" by (cases st)
  have "tracked_exist (fst (do_dm_call cfg c st)) (snd (do_dm_call cfg c st))"
    using Cons.prems tracked_exist_do_dm_call [of dm s c cfg] by (simp add: st)
  then show ?case using Cons.IH Cons.prems(2) by (simp add: dm_run_Cons)
qed

lemma tracked_handle_is_file:
  assumes "list_all no_shell cs" "dm_run cfg cs (new_DiskManager, s0) = (dm, s)"
    "fd2path dm h = Some p"
  shows "is_file s p \<and> path2fd dm p = Some h"
proof -
  have "tracked_exist (fst (new_DiskManager, s0)) (snd (new_DiskManager, s0))"
    by (simp add: tracked_exist_def new_DiskManager_def)
  from tracked_exist_dm_run [OF this assms(1), of cfg] assms(2)
  have "tracked_exist dm s" by simp
  then show ?thesis using assms(3) by (auto simp: tracked_exist_def)
qed

lemma destroy_after_close_reachable:
  assumes "list_all no_shell cs" "dm_run cfg cs (new_DiskManager, s0) = (dm, s)"
    and "fd2path dm h = Some p" "close_file h dm s = (Inr (), dm', s')"
  shows "path2fd dm' p = None \<and>
         (\<exists>s''. destroy_file p dm' s' = (Inr (), s'') \<and> \<not> is_file s'' p)"
  using destroy_after_close [OF assms(3) _ assms(4)] tracked_handle_is_file [OF assms(1-3)]
  by simp

text \<open>
  Claim C6. \<^verbatim>\<open>create_file\<close> on a path that exists throws \<^verbatim>\<open>FileExistsError\<close> and
  changes nothing; so does a second \<^verbatim>\<open>create_file\<close> after one that returned.
  \<^verbatim>\<open>destroy_file\<close> on a path in the open-file table throws \<^verbatim>\<open>FileNotClosedError\<close>
  and the file system stays as it was. When \<^verbatim>\<open>close_file(h)\<close> returns for the handle
  of an existing file \<open>p\<close>, the path is gone from the table, \<^verbatim>\<open>destroy_file(p)\<close> returns
  and \<^verbatim>\<open>is_file(p)\<close> is false afterwards. The file of a tracked handle exists in every
  state the member functions reach (\<open>tracked_handle_is_file\<close>).
\<close>

theorem create_destroy_file_errors:
  "(sys_stat s p \<noteq> None \<longrightarrow> create_file p s = (Inl (FileExistsError p), s)) \<and>
   (create_file p s = (Inr (), s1) \<longrightarrow> create_file p s1 = (Inl (FileExistsError p), s1)) \<and>
   (path2fd dm p \<noteq> None \<longrightarrow> destroy_file p dm s = (Inl (FileNotClosedError p), s)) \<and>
   (fd2path dm h = Some p \<and> is_file s p \<and> close_file h dm s = (Inr (), dm', s') \<longrightarrow>
      path2fd dm' p = None \<and>
      (\<exists>s''. destroy_file p dm' s' = (Inr (), s'') \<and> \<not> is_file s'' p))"
proof -
  have A: "create_file p s1 = (Inl (FileExistsError p), s1)" if "create_file p s = (Inr (), s1)"
    using create_file_Inr [OF that] by (intro create_file_exists) simp
  have B: "path2fd dm' p = None \<and>
      (\<exists>s''. destroy_file p dm' s' = (Inr (), s'') \<and> \<not> is_file s'' p)"
    if h: "fd2path dm h = Some p" and f: "is_file s p" and c: "close_file h dm s = (Inr (), dm', s')"
    using h f c by (rule destroy_after_close)
  show ?thesis
  proof (intro conjI impI)
    assume "sys_stat s p \<noteq> None"
    then show "create_file p s = (Inl (FileExistsError p), s)" by (rule create_file_exists)
  next
    assume "create_file p s = (Inr (), s1)"
    then show "create_file p s1 = (Inl (FileExistsError p), s1)" by (rule A)
  next
    assume "path2fd dm p \<noteq> None"
    then show "destroy_file p dm s = (Inl (FileNotClosedError p), s)" by (rule destroy_file_open)
  next
    assume h: "fd2path dm h = Some p \<and> is_file s p \<and> close_file h dm s = (Inr (), dm', s')"
    then show "path2fd dm' p = None" using B by blast
    from h show "\<exists>s''. destroy_file p dm' s' = (Inr (), s'') \<and> \<not> is_file s'' p"
      using B by blast
  qed
qed


theorem create_destroy_file_errors_witness:
  "create_file ''t.db'' (db_os [] 4096) = (Inl (FileExistsError ''t.db''), db_os [] 4096) \<and>
   destroy_file ''t.db'' db_dm (db_os [] 4096) = (Inl (FileNotClosedError ''t.db''), db_os [] 4096) \<and>
   fst (close_file 3 db_dm (db_os [] 4096)) = Inr () \<and>
   (\<exists>s''. destroy_file ''t.db'' (fst (snd (close_file 3 db_dm (db_os [] 4096))))
            (snd (snd (close_file 3 db_dm (db_os [] 4096)))) = (Inr (), s'') \<and>
          \<not> is_file s'' ''t.db'') \<and>
   fst (create_file ''u.db'' (db_os [] 4096)) = Inr () \<and>
   fst (create_file ''u.db'' (snd (create_file ''u.db'' (db_os [] 4096)))) =
     Inl (FileExistsError ''u.db'')"
proof -
  let ?s = "db_os [] 4096"
  let ?c = "close_file 3 db_dm ?s"
  let ?u = "create_file ''u.db'' ?s"
  have h1: "sys_stat ?s ''t.db'' \<noteq> None" "path2fd db_dm ''t.db'' \<noteq> None"
    "fd2path db_dm 3 = Some ''t.db''" "is_file ?s ''t.db''"
    by (simp_all add: db_os_def db_dm_def sys_stat_def is_file_def)
  have h2: "?c = (Inr (), fst (snd ?c), snd (snd ?c))"
    by (simp add: close_file_def sys_close_def db_os_def db_dm_def Let_def)
  have h3: "?u = (Inr (), snd ?u)"
    by (simp add: create_file_def sys_open_creat_excl_def sys_stat_def lowest_free_fd_def
        sys_close_def db_os_def upt8 Let_def)
  show ?thesis
    using create_destroy_file_errors [of ?s "''t.db''" "snd ?u" db_dm 3 "fst (snd ?c)" "snd (snd ?c)"]
      create_destroy_file_errors [of ?s "''u.db''" "snd ?u" db_dm 3 "fst (snd ?c)" "snd (snd ?c)"]
      h1 h2 h3
    by (metis fst_conv)
qed

subsection \<open>The open-file table\<close>

lemma lowest_free_fd_SomeD: "lowest_free_fd s = Some fd \<Longrightarrow> fds s fd = None \<and> 0 \<le> fd"
  by (auto simp: lowest_free_fd_def find_Some_iff)

lemma sys_open_rdwr_cases:
  assumes "sys_open_rdwr s p = (fd, s1)"
  shows "(fd = - 1 \<and> s1 = s) \<or>
         (0 \<le> fd \<and> fds s fd = None \<and> (\<exists>d. s1 = s\<lparr>fds := (fds s)(fd \<mapsto> d)\<rparr>))"
  using assms lowest_free_fd_SomeD [of s fd]
  by (auto simp: sys_open_rdwr_def split: option.splits inode.splits)

lemma open_file_keeps_bijection:
  assumes b: "bijection dm" and o: "handles_open dm s"
    and r: "open_file p dm s = (r, dm', s')" and ok: "r \<noteq> Inr (- 1)"
  shows "bijection dm' \<and> handles_open dm' s'"
proof (cases "is_file s p \<and> path2fd dm p = None")
  case False
  then have "dm' = dm" "s' = s"
    using r by (auto simp: open_file_def split: option.splits if_splits)
  then show ?thesis using b o by simp
next
  case True
  obtain fd s1 where so: "sys_open_rdwr s p = (fd, s1)" by (cases "sys_open_rdwr s p")
  have dm': "dm' = dm\<lparr>path2fd := (path2fd dm)(p \<mapsto> fd), fd2path := (fd2path dm)(fd \<mapsto> p)\<rparr>"
    and s': "s' = s1" and rr: "r = Inr fd"
    using r True so by (auto simp: open_file_def Let_def)
  from sys_open_rdwr_cases [OF so] ok rr obtain d where
    fd: "fds s fd = None" and s1: "s1 = s\<lparr>fds := (fds s)(fd \<mapsto> d)\<rparr>"
    by auto
  have nf: "fd2path dm fd = None"
    using o fd by (cases "fd2path dm fd") (auto simp: handles_open_def)
  have np: "path2fd dm p = None" using True by simp
  have "bijection dm'"
    unfolding bijection_def
  proof (intro allI iffI)
    fix q h assume a: "path2fd dm' q = Some h"
    show "fd2path dm' h = Some q"
    proof (cases "q = p")
      case True
      then show ?thesis using a by (simp add: dm')
    next
      case False
      then have "path2fd dm q = Some h" using a by (simp add: dm')
      then have "fd2path dm h = Some q" using b by (simp add: bijection_def)
      moreover from this have "h \<noteq> fd" using nf by auto
      ultimately show ?thesis by (simp add: dm')
    qed
  next
    fix q h assume a: "fd2path dm' h = Some q"
    show "path2fd dm' q = Some h"
    proof (cases "h = fd")
      case True
      then show ?thesis using a by (simp add: dm')
    next
      case False
      then have "fd2path dm h = Some q" using a by (simp add: dm')
      then have "path2fd dm q = Some h" using b by (simp add: bijection_def)
      moreover from this have "q \<noteq> p" using np by auto
      ultimately show ?thesis by (simp add: dm')
    qed
  qed
  moreover have "handles_open dm' s'"
    using o unfolding handles_open_def dm' s' s1 by auto
  ultimately show ?thesis by simp
qed

lemma close_file_keeps_bijection:
  assumes b: "bijection dm" and o: "handles_open dm s"
    and r: "close_file fd dm s = (r, dm', s')"
  shows "bijection dm' \<and> handles_open dm' s'"
proof (cases "fd2path dm fd")
  case None
  then have "dm' = dm" "s' = s" using r by (simp_all add: close_file_def)
  then show ?thesis using b o by simp
next
  case (Some p)
  then have op: "fds s fd \<noteq> None" using o by (auto simp: handles_open_def)
  then have dm': "dm' = dm\<lparr>fd2path := (fd2path dm)(fd := None), path2fd := (path2fd dm)(p := None)\<rparr>"
    and s': "s' = s\<lparr>fds := (fds s)(fd := None)\<rparr>"
    using r Some by (auto simp: close_file_def sys_close_def Let_def)
  have pf: "path2fd dm p = Some fd" using b Some by (simp add: bijection_def)
  have "bijection dm'"
    unfolding bijection_def
  proof (intro allI iffI)
    fix q h assume "path2fd dm' q = Some h"
    then have q: "q \<noteq> p" "path2fd dm q = Some h" by (auto simp: dm' split: if_splits)
    then have "fd2path dm h = Some q" using b by (simp add: bijection_def)
    moreover from this have "h \<noteq> fd" using Some q(1) by auto
    ultimately show "fd2path dm' h = Some q" by (simp add: dm')
  next
    fix q h assume "fd2path dm' h = Some q"
    then have h: "h \<noteq> fd" "fd2path dm h = Some q" by (auto simp: dm' split: if_splits)
    then have "path2fd dm q = Some h" using b by (simp add: bijection_def)
    moreover from this have "q \<noteq> p" using pf h(1) by auto
    ultimately show "path2fd dm' q = Some h" by (simp add: dm')
  qed
  moreover have "handles_open dm' s'"
    using o unfolding handles_open_def dm' s' by auto
  ultimately show ?thesis by simp
qed

lemma open_file_tracked:
  "is_file s p \<Longrightarrow> path2fd dm p = Some fd \<Longrightarrow> open_file p dm s = (Inr fd, dm, s)"
  by (simp add: open_file_def)

lemma open_file_missing:
  "\<not> is_file s p \<Longrightarrow> open_file p dm s = (Inl (FileNotFoundError p), dm, s)"
  by (simp add: open_file_def)

lemma close_file_untracked:
  "fd2path dm fd = None \<Longrightarrow> close_file fd dm s = (Inr (), dm, s)"
  by (simp add: close_file_def)

text \<open>
  Claim C7 fails where \<^verbatim>\<open>open\<close> fails on an existing file: \<^verbatim>\<open>open_file\<close> does not test
  the descriptor, returns \<open>-1\<close> as the handle and enters it into both maps. With a limit
  of four descriptors, the second and third of three opened files both get \<open>-1\<close>:
  \<open>''b''\<close> maps to \<open>-1\<close>, and \<open>-1\<close> maps back to \<open>''c''\<close>. The lemmas above show that
  the table stays a bijection as long as no \<^verbatim>\<open>open_file\<close> returns \<open>-1\<close>, that
  \<^verbatim>\<open>open_file\<close> on a tracked path returns its handle and changes nothing, that it throws
  \<^verbatim>\<open>FileNotFoundError\<close> for a missing file, and that \<^verbatim>\<open>close_file\<close> removes both
  directions and does nothing on an untracked handle.
\<close>

theorem failed_open_breaks_bijection:
  "path2fd (fst (dm_run example_config
      [Create_file ''a'', Create_file ''b'', Create_file ''c'',
       Open_file ''a'', Open_file ''b'', Open_file ''c''] (new_DiskManager, fresh_os 4 4096))) ''b''
     = Some (- 1) \<and>
   fd2path (fst (dm_run example_config
      [Create_file ''a'', Create_file ''b'', Create_file ''c'',
       Open_file ''a'', Open_file ''b'', Open_file ''c''] (new_DiskManager, fresh_os 4 4096))) (- 1)
     = Some ''c'' \<and>
   \<not> bijection (fst (dm_run example_config
      [Create_file ''a'', Create_file ''b'', Create_file ''c'',
       Open_file ''a'', Open_file ''b'', Open_file ''c''] (new_DiskManager, fresh_os 4 4096)))"
proof -
  let ?dm = "fst (dm_run example_config
      [Create_file ''a'', Create_file ''b'', Create_file ''c'',
       Open_file ''a'', Open_file ''b'', Open_file ''c''] (new_DiskManager, fresh_os 4 4096))"
  have p: "path2fd ?dm ''b'' = Some (- 1)"
    by (simp add: dm_eval os_eval upt4)
  have f: "fd2path ?dm (- 1) = Some ''c''"
    by (simp add: dm_eval os_eval upt4)
  have "\<not> bijection ?dm"
  proof
    assume "bijection ?dm"
    then have "fd2path ?dm (- 1) = Some ''b''"
      using p unfolding bijection_def by blast
    with f show False by simp
  qed
  with p f show ?thesis by simp
qed

subsection \<open>The log\<close>

lemma to_int_signed: "to_int n = signed_take_bit 31 (int n)"
  unfolding to_int_def using signed_of_nat [where ?'b = 32 and ?'a = int, of n] by simp

lemma to_int_le: "to_int n \<le> int n"
proof -
  have "- (2 ^ 31) \<le> int n" by (rule order_trans [of _ 0]) simp_all
  then show ?thesis
    unfolding to_int_signed by (simp only: signed_take_bit_int_less_eq_self_iff)
qed

lemma to_int_small: "n < 2 ^ 31 \<Longrightarrow> to_int n = int n"
proof -
  assume n: "n < 2 ^ 31"
  have "- (2 ^ 31) \<le> int n" by (rule order_trans [of _ 0]) simp_all
  moreover have "int n < 2 ^ 31" using n by (simp add: of_nat_less_numeral_power_cancel_iff)
  ultimately show ?thesis
    unfolding to_int_signed by (rule signed_take_bit_int_eq_self)
qed

lemma get_file_size_reg: "sys_stat s L = Some (Reg c) \<Longrightarrow> get_file_size s L = to_int (length c)"
  by (simp add: get_file_size_def)

lemma log_fd_okD:
  assumes "log_fd_ok L s fd" "sys_stat s L = Some (Reg c)"
  shows "\<exists>d. fd_file s fd = Some (d, c) \<and> ofd_acc d = O_RDWR \<and> names s L = Some (ofd_ino d)"
proof -
  from assms(1) obtain d c' where f: "fd_file s fd = Some (d, c')"
    and n: "names s L = Some (ofd_ino d)" and a: "ofd_acc d = O_RDWR"
    by (auto simp: log_fd_ok_def split: option.splits)
  from fd_file_SomeD [OF f] have "inodes s ! ofd_ino d = Reg c'" by simp
  moreover from assms(2) n have "inodes s ! ofd_ino d = Reg c"
    by (simp add: sys_stat_def split: if_splits)
  ultimately have "c' = c" by simp
  with f a n show ?thesis by blast
qed

lemma read_log_opened_valid:
  assumes st: "sys_stat s L = Some (Reg c)" and ok: "log_fd_ok L s (log_fd dm)"
    and sz: "0 \<le> sz" and off: "0 \<le> off"
  shows "\<exists>s'. read_log_opened L sz off dm s =
      (if off > get_file_size s L then (Inr (- 1), [], dm, s)
       else (Inr (min sz (get_file_size s L - off)),
             take (nat (min sz (get_file_size s L - off))) (drop (nat off) c), dm, s'))"
proof -
  let ?fs = "get_file_size s L"
  let ?m = "min sz (?fs - off)"
  from log_fd_okD [OF ok st] obtain d where
    f: "fd_file s (log_fd dm) = Some (d, c)" and "ofd_acc d = O_RDWR" by blast
  then have a: "ofd_acc d \<noteq> O_WRONLY" by simp
  have fs: "?fs \<le> int (length c)" using to_int_le by (simp add: get_file_size_reg [OF st])
  show ?thesis
  proof (cases "off > ?fs")
    case True
    then show ?thesis by (simp add: read_log_opened_def)
  next
    case False
    show ?thesis
    proof (cases "?m = 0")
      case True
      then show ?thesis using False by (simp add: read_log_opened_def Let_def)
    next
      case nz: False
      then have m: "0 < ?m" using sz False by (auto simp: min_def split: if_splits)
      let ?s1 = "s\<lparr>fds := (fds s)(log_fd dm \<mapsto> d\<lparr>ofd_pos := nat off\<rparr>)\<rparr>"
      let ?d1 = "d\<lparr>ofd_pos := nat off\<rparr>"
      note l = sys_lseek_set_valid [OF f off]
      have a1: "ofd_acc ?d1 \<noteq> O_WRONLY" using a by simp
      have m0: "0 \<le> ?m" using m by simp
      from sys_read_valid [OF l(2) a1 m0] obtain s' where
        r: "sys_read ?s1 (log_fd dm) ?m =
              (int (length (take (nat ?m) (drop (nat off) c))), take (nat ?m) (drop (nat off) c), s')"
        by auto
      have "nat ?m \<le> length c - nat off" using fs off m by simp
      then have len: "int (length (take (nat ?m) (drop (nat off) c))) = ?m"
        using m by simp
      note r' = r [unfolded len]
      have "read_log_opened L sz off dm s =
          (Inr ?m, take (nat ?m) (drop (nat off) c), dm, s')"
        using False nz by (simp add: read_log_opened_def l(1) r' Let_def)
      then show ?thesis using False by auto
    qed
  qed
qed


lemma lowest_free_fd_open:
  assumes "lowest_free_fd s = Some fd" "sys_stat s L = Some (Reg c)"
  shows "\<exists>i. names s L = Some i \<and>
     sys_open_rdwr s L =
       (fd, s\<lparr>fds := (fds s)(fd \<mapsto> \<lparr>ofd_ino = i, ofd_pos = 0, ofd_acc = O_RDWR\<rparr>)\<rparr>) \<and>
     log_fd_ok L (s\<lparr>fds := (fds s)(fd \<mapsto> \<lparr>ofd_ino = i, ofd_pos = 0, ofd_acc = O_RDWR\<rparr>)\<rparr>) fd"
proof -
  from assms(2) obtain i where i: "names s L = Some i" "i < length (inodes s)" "inodes s ! i = Reg c"
    by (auto simp: sys_stat_def split: option.splits if_splits)
  have "sys_open_rdwr s L =
       (fd, s\<lparr>fds := (fds s)(fd \<mapsto> \<lparr>ofd_ino = i, ofd_pos = 0, ofd_acc = O_RDWR\<rparr>)\<rparr>)"
    using assms i by (simp add: sys_open_rdwr_def)
  moreover have "log_fd_ok L (s\<lparr>fds := (fds s)(fd \<mapsto> \<lparr>ofd_ino = i, ofd_pos = 0, ofd_acc = O_RDWR\<rparr>)\<rparr>) fd"
    using i by (simp add: log_fd_ok_def fd_file_def)
  ultimately show ?thesis using i(1) by blast
qed

lemma read_log_valid:
  assumes st: "sys_stat s L = Some (Reg c)" and rdy: "log_ready L dm s"
    and sz: "0 \<le> sz" and off: "0 \<le> off"
  shows "\<exists>dm' s'. read_log L sz off dm s =
      (if off > get_file_size s L then Inr (- 1) else Inr (min sz (get_file_size s L - off)),
       if off > get_file_size s L then []
       else take (nat (min sz (get_file_size s L - off))) (drop (nat off) c), dm', s')"
proof (cases "log_fd dm = - 1")
  case False
  then have "log_fd_ok L s (log_fd dm)" using rdy by (simp add: log_ready_def)
  from read_log_opened_valid [OF st this sz off, of] False show ?thesis
    by (auto simp: read_log_def)
next
  case True
  have f: "is_file s L" using st by (simp add: is_file_def)
  show ?thesis
  proof (cases "path2fd dm L")
    case (Some fd)
    then have ok: "log_fd_ok L s (log_fd (dm\<lparr>log_fd := fd\<rparr>))"
      using rdy True by (simp add: log_ready_def)
    have "open_file L dm s = (Inr fd, dm, s)" using f Some by (simp add: open_file_def)
    then have "read_log L sz off dm s = read_log_opened L sz off (dm\<lparr>log_fd := fd\<rparr>) s"
      using True by (simp add: read_log_def)
    with read_log_opened_valid [OF st ok sz off] show ?thesis by auto
  next
    case None
    then obtain fd where lf: "lowest_free_fd s = Some fd"
      using rdy True by (auto simp: log_ready_def)
    from lowest_free_fd_open [OF lf st] obtain i where
      o: "sys_open_rdwr s L =
           (fd, s\<lparr>fds := (fds s)(fd \<mapsto> \<lparr>ofd_ino = i, ofd_pos = 0, ofd_acc = O_RDWR\<rparr>)\<rparr>)"
      and ok: "log_fd_ok L (s\<lparr>fds := (fds s)(fd \<mapsto> \<lparr>ofd_ino = i, ofd_pos = 0, ofd_acc = O_RDWR\<rparr>)\<rparr>) fd"
      by blast
    let ?s1 = "s\<lparr>fds := (fds s)(fd \<mapsto> \<lparr>ofd_ino = i, ofd_pos = 0, ofd_acc = O_RDWR\<rparr>)\<rparr>"
    let ?dm1 = "dm\<lparr>path2fd := (path2fd dm)(L \<mapsto> fd), fd2path := (fd2path dm)(fd \<mapsto> L)\<rparr>"
    have "open_file L dm s = (Inr fd, ?dm1, ?s1)"
      using f None o by (simp add: open_file_def Let_def)
    then have r: "read_log L sz off dm s = read_log_opened L sz off (?dm1\<lparr>log_fd := fd\<rparr>) ?s1"
      using True by (simp add: read_log_def)
    have st1: "sys_stat ?s1 L = Some (Reg c)"
      using st sys_stat_same [of ?s1 s L] by simp
    have g: "get_file_size ?s1 L = get_file_size s L"
      using st st1 by (simp add: get_file_size_def)
    have ok1: "log_fd_ok L ?s1 (log_fd (?dm1\<lparr>log_fd := fd\<rparr>))" using ok by simp
    from read_log_opened_valid [OF st1 ok1 sz off] show ?thesis
      unfolding r g by auto
  qed
qed

text \<open>\<^verbatim>\<open>write_log\<close> appends the bytes it is given to the log.\<close>

lemma pwrite_append: "pwrite c (length c) data = c @ data"
  by (simp add: pwrite_def)

lemma sys_lseek_end_valid:
  assumes "fd_file s fd = Some (d, c)"
  shows "sys_lseek_end s fd = (int (length c), s\<lparr>fds := (fds s)(fd \<mapsto> d\<lparr>ofd_pos := length c\<rparr>)\<rparr>)"
    and "fd_file (s\<lparr>fds := (fds s)(fd \<mapsto> d\<lparr>ofd_pos := length c\<rparr>)\<rparr>) fd = Some (d\<lparr>ofd_pos := length c\<rparr>, c)"
  using assms fd_file_SomeD [OF assms]
  by (simp_all add: sys_lseek_end_def fd_file_def)

lemma write_log_opened_valid:
  assumes st: "sys_stat s L = Some (Reg c)" and ok: "log_fd_ok L s (log_fd dm)"
    and n: "0 \<le> n" and w: "nat n \<le> write_limit s"
  shows "\<exists>s'. write_log_opened buf n dm s = (Inr (), dm, s') \<and>
           sys_stat s' L = Some (Reg (c @ take (nat n) buf)) \<and>
           log_fd_ok L s' (log_fd dm)"
proof -
  let ?fd = "log_fd dm"
  from log_fd_okD [OF ok st] obtain d where
    f: "fd_file s ?fd = Some (d, c)" and a: "ofd_acc d = O_RDWR"
    and nm: "names s L = Some (ofd_ino d)" by blast
  let ?d1 = "d\<lparr>ofd_pos := length c\<rparr>"
  let ?s1 = "s\<lparr>fds := (fds s)(?fd \<mapsto> ?d1)\<rparr>"
  note l = sys_lseek_end_valid [OF f]
  have a1: "ofd_acc ?d1 \<noteq> O_RDONLY" using a by simp
  have st1: "sys_stat ?s1 L = Some (Reg c)" using st sys_stat_same [of ?s1 s L] by simp
  have ok1: "log_fd_ok L ?s1 ?fd" using l(2) nm a by (simp add: log_fd_ok_def)
  show ?thesis
  proof (cases "n = 0")
    case True
    then have "sys_write ?s1 ?fd buf n = (0, ?s1)"
      using sys_write_zero [OF l(2) a1, of n buf] by simp
    then have "write_log_opened buf n dm s = (Inr (), dm, ?s1)"
      using True by (simp add: write_log_opened_def l(1))
    then show ?thesis using st1 ok1 True by simp
  next
    case False
    then have pos: "0 < n" using n by simp
    have k: "nat n = min (nat n) (write_limit ?s1)" using w by simp
    have kp: "0 < nat n" using pos by simp
    from sys_write_valid [OF l(2) a1 pos k kp, of buf] obtain s' where
      sw: "sys_write ?s1 ?fd buf n = (int (nat n), s')" and
      f': "fd_file s' ?fd = Some (?d1\<lparr>ofd_pos := ofd_pos ?d1 + nat n\<rparr>,
             pwrite c (ofd_pos ?d1) (take (nat n) buf))"
      by blast
    have nm': "names s' = names s"
      using sw l(2) a1 pos by (auto simp: sys_write_def Let_def split: if_splits)
    have "write_log_opened buf n dm s = (Inr (), dm, s')"
      using pos by (simp add: write_log_opened_def l(1) sw)
    moreover have "sys_stat s' L = Some (Reg (c @ take (nat n) buf))"
      using fd_file_SomeD [OF f'] nm nm' by (simp add: sys_stat_def pwrite_append)
    moreover have "log_fd_ok L s' ?fd"
      using f' nm nm' a by (simp add: log_fd_ok_def)
    ultimately show ?thesis by blast
  qed
qed

lemma open_log_first:
  assumes st: "sys_stat s L = Some (Reg c)" and rdy: "log_ready L dm s" and m: "log_fd dm = - 1"
  shows "\<exists>fd dm1 s1. open_file L dm s = (Inr fd, dm1, s1) \<and> sys_stat s1 L = Some (Reg c) \<and>
           log_fd_ok L s1 fd \<and> write_limit s1 = write_limit s \<and> path2fd dm1 L = Some fd"
proof -
  have f: "is_file s L" using st by (simp add: is_file_def)
  show ?thesis
  proof (cases "path2fd dm L")
    case (Some fd)
    then have "log_fd_ok L s fd" using rdy m by (simp add: log_ready_def)
    moreover have "open_file L dm s = (Inr fd, dm, s)" using f Some by (simp add: open_file_def)
    ultimately show ?thesis using st Some by blast
  next
    case None
    then obtain fd where lf: "lowest_free_fd s = Some fd"
      using rdy m by (auto simp: log_ready_def)
    from lowest_free_fd_open [OF lf st] obtain i where
      o: "sys_open_rdwr s L =
           (fd, s\<lparr>fds := (fds s)(fd \<mapsto> \<lparr>ofd_ino = i, ofd_pos = 0, ofd_acc = O_RDWR\<rparr>)\<rparr>)"
      and ok: "log_fd_ok L (s\<lparr>fds := (fds s)(fd \<mapsto> \<lparr>ofd_ino = i, ofd_pos = 0, ofd_acc = O_RDWR\<rparr>)\<rparr>) fd"
      by blast
    let ?s1 = "s\<lparr>fds := (fds s)(fd \<mapsto> \<lparr>ofd_ino = i, ofd_pos = 0, ofd_acc = O_RDWR\<rparr>)\<rparr>"
    let ?dm1 = "dm\<lparr>path2fd := (path2fd dm)(L \<mapsto> fd), fd2path := (fd2path dm)(fd \<mapsto> L)\<rparr>"
    have "open_file L dm s = (Inr fd, ?dm1, ?s1)"
      using f None o by (simp add: open_file_def Let_def)
    moreover have "sys_stat ?s1 L = Some (Reg c)"
      using st sys_stat_same [of ?s1 s L] by simp
    moreover have "path2fd ?dm1 L = Some fd" by simp
    moreover have "write_limit ?s1 = write_limit s" by simp
    ultimately show ?thesis using ok by blast
  qed
qed

lemma log_ready_after:
  "log_fd_ok L s (log_fd dm) \<Longrightarrow> log_fd dm = - 1 \<longrightarrow> path2fd dm L = Some (log_fd dm) \<Longrightarrow>
   log_ready L dm s"
  by (auto simp: log_ready_def)

lemma write_log_appends:
  assumes st: "sys_stat s L = Some (Reg c)" and rdy: "log_ready L dm s"
    and n: "0 \<le> n" and w: "nat n \<le> write_limit s"
  shows "\<exists>dm' s'. write_log L buf n dm s = (Inr (), dm', s') \<and>
           sys_stat s' L = Some (Reg (c @ take (nat n) buf)) \<and> log_ready L dm' s'"
proof (cases "log_fd dm = - 1")
  case False
  then have ok: "log_fd_ok L s (log_fd dm)" using rdy by (simp add: log_ready_def)
  from write_log_opened_valid [OF st ok n w, of buf] obtain s' where
    "write_log_opened buf n dm s = (Inr (), dm, s')"
    "sys_stat s' L = Some (Reg (c @ take (nat n) buf))" "log_fd_ok L s' (log_fd dm)" by blast
  moreover from this have "log_ready L dm s'" using False by (simp add: log_ready_def)
  ultimately show ?thesis using False by (auto simp: write_log_def)
next
  case True
  from open_log_first [OF st rdy True] obtain fd dm1 s1 where
    o: "open_file L dm s = (Inr fd, dm1, s1)" and st1: "sys_stat s1 L = Some (Reg c)"
    and ok1: "log_fd_ok L s1 fd" and wl: "write_limit s1 = write_limit s"
    and p: "path2fd dm1 L = Some fd" by blast
  let ?dm2 = "dm1\<lparr>log_fd := fd\<rparr>"
  have ok2: "log_fd_ok L s1 (log_fd ?dm2)" using ok1 by simp
  have w1: "nat n \<le> write_limit s1" using w wl by simp
  from write_log_opened_valid [OF st1 ok2 n w1, of buf] obtain s' where
    r: "write_log_opened buf n ?dm2 s1 = (Inr (), ?dm2, s')"
    and st': "sys_stat s' L = Some (Reg (c @ take (nat n) buf))"
    and ok': "log_fd_ok L s' (log_fd ?dm2)" by blast
  have "log_ready L ?dm2 s'"
    using ok' p by (intro log_ready_after) simp_all
  moreover have "write_log L buf n dm s = (Inr (), ?dm2, s')"
    using True o r by (simp add: write_log_def)
  ultimately show ?thesis using st' by blast
qed

lemma log_os_ready: "sys_stat log_os ''db.log'' = Some (Reg [1, 2, 3, 4, 5])"
  "log_ready ''db.log'' new_DiskManager log_os"
  by (simp_all add: log_os_def sys_stat_def log_ready_def new_DiskManager_def
      lowest_free_fd_def tty_def upt8)





text \<open>What \<^verbatim>\<open>write_log\<close> appended is what \<^verbatim>\<open>read_log\<close> returns from the old end of the log.\<close>

lemma log_roundtrip:
  "\<exists>dm' s'. write_log ''db.log'' [6, 7, 8] 3 new_DiskManager log_os = (Inr (), dm', s') \<and>
     fst (read_log ''db.log'' 10 5 dm' s') = Inr 3 \<and>
     fst (snd (read_log ''db.log'' 10 5 dm' s')) = [6, 7, 8]"
proof -
  have z: "(0::int) \<le> 3" "nat 3 \<le> write_limit log_os" by (simp_all add: log_os_def)
  from write_log_appends [OF log_os_ready z, of "[6, 7, 8]"] obtain dm' s' where
    w: "write_log ''db.log'' [6, 7, 8] 3 new_DiskManager log_os = (Inr (), dm', s')"
    and st: "sys_stat s' ''db.log'' = Some (Reg ([1, 2, 3, 4, 5] @ take (nat 3) [6, 7, 8]))"
    and rdy: "log_ready ''db.log'' dm' s'" by blast
  have g: "get_file_size s' ''db.log'' = 8"
    using st by (simp add: get_file_size_def to_int_small)
  have z2: "(0::int) \<le> 10" "(0::int) \<le> 5" by simp_all
  from read_log_valid [OF st rdy z2] g obtain dm'' s'' where
    "read_log ''db.log'' 10 5 dm' s' = (Inr 3, [6, 7, 8], dm'', s'')" by auto
  with w show ?thesis by simp
qed

text \<open>
  Outside these conditions the result of \<^verbatim>\<open>lseek\<close> decides, and \<^verbatim>\<open>read_log\<close> does not
  test it: with a negative offset the seek fails and the read starts where the descriptor
  stands. On the freshly opened log of five bytes a request of ten bytes at offset
  \<open>-1\<close> fails the \<^verbatim>\<open>assert\<close>, and a request of two bytes returns the first two bytes.
\<close>

lemma read_log_negative_offset:
  "fst (read_log ''db.log'' 10 (- 1) new_DiskManager log_os) = Inl AssertionFailed \<and>
   fst (read_log ''db.log'' 2 (- 1) new_DiskManager log_os) = Inr 2 \<and>
   fst (snd (read_log ''db.log'' 2 (- 1) new_DiskManager log_os)) = [1, 2]"
  by (simp add: read_log_def read_log_opened_def open_file_def get_file_size_def to_int_small
      new_DiskManager_def log_os_def tty_def os_eval upt8 Let_def)

end
